theory Spec2Isabelle
  imports Main "HOL-Library.Word"
begin

section \<open>Data model\<close>

text \<open>
  A shallow embedding of the priority scheduler of \<^verbatim>\<open>pintos/threads/thread.c\<close>,
  \<^verbatim>\<open>pintos/threads/synch.c\<close> and \<^verbatim>\<open>pintos/devices/timer.c\<close>.

  A \<^verbatim>\<open>struct thread *\<close> is the index of the thread's page, a \<^verbatim>\<open>struct lock *\<close>,
  \<^verbatim>\<open>struct semaphore *\<close>, \<^verbatim>\<open>struct condition *\<close> and \<^verbatim>\<open>struct semaphore_elem *\<close> are
  addresses into stores of their own; \<^verbatim>\<open>NULL\<close> is \<open>None\<close>.  An intrusive list is the
  list of the owners of its elements, front first.  Priorities are C \<^verbatim>\<open>int\<close>s that are
  only copied and compared, tick counts are \<^verbatim>\<open>int64_t\<close> whose overflow is undefined in
  C: both are \<open>int\<close>.  The \<^verbatim>\<open>unsigned\<close> counters wrap and are 32-bit words.
\<close>

type_synonym tid = nat

datatype thread_status = THREAD_RUNNING | THREAD_READY | THREAD_BLOCKED | THREAD_DYING

datatype intr_level = INTR_OFF | INTR_ON

record thread =
  status :: thread_status
  priority :: int
  original_priority :: int
  donators :: "tid list"
  waiting_lock :: "nat option"
  wakeup_tick :: int

record semaphore =
  sem_value :: "32 word"
  waiters :: "tid list"

record lock =
  holder :: "tid option"
  semaphore :: semaphore

text \<open>
  A semaphore is reached through a pointer: to a semaphore of its own, to the one
  embedded in a lock, or to the one embedded in a \<^verbatim>\<open>struct semaphore_elem\<close> (the slot
  that \<^verbatim>\<open>cond_wait\<close> keeps on its stack).
\<close>

datatype sema_ptr = SEMA nat | LOCK_SEMA nat | ELEM_SEMA nat

record kernel =
  threads :: "tid \<Rightarrow> thread"
  locks :: "nat \<Rightarrow> lock"
  semas :: "nat \<Rightarrow> semaphore"
  sema_elems :: "nat \<Rightarrow> semaphore"
  conds :: "nat \<Rightarrow> nat list"
  running :: tid
  ready_list :: "tid list"
  sleep_list :: "tid list"
  destruction_req :: "tid list"
  idle_thread :: "tid option"
  initial_thread :: tid
  thread_ticks :: "32 word"
  idle_ticks :: int
  kernel_ticks :: int
  ticks :: int
  intr_lvl :: intr_level
  in_external_intr :: bool
  yield_on_return :: bool

text \<open>
  A failed \<^verbatim>\<open>ASSERT\<close> panics the kernel; reading the front of an empty list reads
  memory that is no thread.  Both are error values of the model.
\<close>

datatype error =
    ASSERT_not_intr_context
  | ASSERT_intr_off
  | ASSERT_intr_on
  | ASSERT_status_running
  | ASSERT_status_blocked
  | ASSERT_status_not_running
  | ASSERT_is_thread
  | ASSERT_lock_held
  | ASSERT_lock_not_held
  | READ_front_of_empty_list

definition bindE :: "error + 'a \<Rightarrow> ('a \<Rightarrow> error + 'b) \<Rightarrow> error + 'b" where
  "bindE m f = (case m of Inl e \<Rightarrow> Inl e | Inr x \<Rightarrow> f x)"

definition get_sema :: "kernel \<Rightarrow> sema_ptr \<Rightarrow> semaphore" where
  "get_sema k p = (case p of SEMA a \<Rightarrow> semas k a
                   | LOCK_SEMA l \<Rightarrow> semaphore (locks k l)
                   | ELEM_SEMA w \<Rightarrow> sema_elems k w)"

definition put_sema :: "sema_ptr \<Rightarrow> semaphore \<Rightarrow> kernel \<Rightarrow> kernel" where
  "put_sema p s k = (case p of SEMA a \<Rightarrow> k\<lparr>semas := (semas k)(a := s)\<rparr>
                   | LOCK_SEMA l \<Rightarrow> k\<lparr>locks := (locks k)(l := (locks k l)\<lparr>semaphore := s\<rparr>)\<rparr>
                   | ELEM_SEMA w \<Rightarrow> k\<lparr>sema_elems := (sema_elems k)(w := s)\<rparr>)"

definition upd_thread :: "tid \<Rightarrow> (thread \<Rightarrow> thread) \<Rightarrow> kernel \<Rightarrow> kernel" where
  "upd_thread t f k = k\<lparr>threads := (threads k)(t := f (threads k t))\<rparr>"

section \<open>Interrupt gate and intrusive lists\<close>

text \<open>
  Modelled from the spec: \<^verbatim>\<open>threads/interrupt.c\<close> is not among the sources.  Section 4.1
  gives the interrupt gate as read, disable and restore of the interrupt-enable bit;
  \<^verbatim>\<open>intr_context\<close> tells whether an external interrupt handler runs and
  \<^verbatim>\<open>intr_yield_on_return\<close> requests a yield when the handler returns.
\<close>

definition intr_get_level :: "kernel \<Rightarrow> intr_level" where
  "intr_get_level k = intr_lvl k"

definition intr_disable :: "kernel \<Rightarrow> kernel" where
  "intr_disable k = k\<lparr>intr_lvl := INTR_OFF\<rparr>"

definition intr_set_level :: "intr_level \<Rightarrow> kernel \<Rightarrow> kernel" where
  "intr_set_level l k = k\<lparr>intr_lvl := l\<rparr>"

definition intr_context :: "kernel \<Rightarrow> bool" where
  "intr_context k = in_external_intr k"

definition intr_yield_on_return :: "kernel \<Rightarrow> kernel" where
  "intr_yield_on_return k = k\<lparr>yield_on_return := True\<rparr>"

text \<open>
  Modelled from the spec: \<^verbatim>\<open>lib/kernel/list.c\<close> is not among the sources.  Section 4.2
  gives ordered insertion and a stable sort, both with a less-than comparator that
  returns true if its first argument should precede its second.  Ordered insertion
  puts the element before the first entry it should precede; the sort inserts the
  entries one by one in their old order, so entries that the comparator does not
  separate keep their order.
\<close>

fun list_insert_ordered :: "('a \<Rightarrow> 'a \<Rightarrow> bool) \<Rightarrow> 'a \<Rightarrow> 'a list \<Rightarrow> 'a list" where
  "list_insert_ordered lt x [] = [x]"
| "list_insert_ordered lt x (e # es) =
     (if lt x e then x # e # es else e # list_insert_ordered lt x es)"

fun list_sort_onto :: "('a \<Rightarrow> 'a \<Rightarrow> bool) \<Rightarrow> 'a list \<Rightarrow> 'a list \<Rightarrow> 'a list" where
  "list_sort_onto lt acc [] = acc"
| "list_sort_onto lt acc (x # xs) = list_sort_onto lt (list_insert_ordered lt x acc) xs"

definition list_sort :: "('a \<Rightarrow> 'a \<Rightarrow> bool) \<Rightarrow> 'a list \<Rightarrow> 'a list" where
  "list_sort lt xs = list_sort_onto lt [] xs"

text \<open>Ordered insertion with a comparator that can fault.\<close>

fun list_insert_ordered_E ::
  "('a \<Rightarrow> 'a \<Rightarrow> error + bool) \<Rightarrow> 'a \<Rightarrow> 'a list \<Rightarrow> error + 'a list" where
  "list_insert_ordered_E lt x [] = Inr [x]"
| "list_insert_ordered_E lt x (e # es) =
     bindE (lt x e) (\<lambda>b. if b then Inr (x # e # es)
                            else bindE (list_insert_ordered_E lt x es) (\<lambda>r. Inr (e # r)))"

section \<open>thread.c\<close>

abbreviation TIME_SLICE :: "32 word" where
  "TIME_SLICE \<equiv> 4"

text \<open>
  \<^verbatim>\<open>thread_current\<close> is the running thread, found from the stack pointer, with the
  assertion that its status is \<^verbatim>\<open>THREAD_RUNNING\<close>.
\<close>

definition thread_current :: "kernel \<Rightarrow> error + tid" where
  "thread_current k =
     (if status (threads k (running k)) = THREAD_RUNNING then Inr (running k)
      else Inl ASSERT_status_running)"

definition compare_ready_priority :: "kernel \<Rightarrow> tid \<Rightarrow> tid \<Rightarrow> bool" where
  "compare_ready_priority k a b = (priority (threads k a) > priority (threads k b))"

definition compare_donation_priority :: "kernel \<Rightarrow> tid \<Rightarrow> tid \<Rightarrow> bool" where
  "compare_donation_priority k a b = (priority (threads k a) > priority (threads k b))"

definition next_thread_to_run :: "kernel \<Rightarrow> tid option \<times> kernel" where
  "next_thread_to_run k =
     (case ready_list k of [] \<Rightarrow> (idle_thread k, k)
      | t # ts \<Rightarrow> (Some t, k\<lparr>ready_list := ts\<rparr>))"

text \<open>
  \<^verbatim>\<open>schedule\<close> ends in \<^verbatim>\<open>thread_launch\<close>: from then on the processor runs \<open>next\<close>.
  The calling thread goes on after the call only when it is dispatched again, so a
  model function whose call switched threads ends there, with the state at the
  switch (\<open>running\<close> is no longer its caller).
\<close>

definition schedule :: "kernel \<Rightarrow> error + kernel" where
  "schedule k =
     (let curr = running k; (nxt, k1) = next_thread_to_run k in
      if intr_get_level k1 \<noteq> INTR_OFF then Inl ASSERT_intr_off
      else if status (threads k1 curr) = THREAD_RUNNING then Inl ASSERT_status_not_running
      else case nxt of None \<Rightarrow> Inl ASSERT_is_thread
      | Some next \<Rightarrow>
          (let k2 = upd_thread next (\<lambda>t. t\<lparr>status := THREAD_RUNNING\<rparr>) k1;
               k3 = k2\<lparr>thread_ticks := 0\<rparr> in
           if curr \<noteq> next then
             (let k4 = (if status (threads k3 curr) = THREAD_DYING \<and> curr \<noteq> initial_thread k3
                        then k3\<lparr>destruction_req := destruction_req k3 @ [curr]\<rparr> else k3)
              in Inr (k4\<lparr>running := next\<rparr>))
           else Inr k3))"

definition do_schedule :: "thread_status \<Rightarrow> kernel \<Rightarrow> error + kernel" where
  "do_schedule st k =
     (if intr_get_level k \<noteq> INTR_OFF then Inl ASSERT_intr_off
      else bindE (thread_current k) (\<lambda>cur.
        let k1 = k\<lparr>destruction_req := []\<rparr>;
            k2 = upd_thread cur (\<lambda>t. t\<lparr>status := st\<rparr>) k1
        in schedule k2))"

definition thread_block :: "kernel \<Rightarrow> error + kernel" where
  "thread_block k =
     (if intr_context k then Inl ASSERT_not_intr_context
      else if intr_get_level k \<noteq> INTR_OFF then Inl ASSERT_intr_off
      else bindE (thread_current k) (\<lambda>cur.
        schedule (upd_thread cur (\<lambda>t. t\<lparr>status := THREAD_BLOCKED\<rparr>) k)))"

definition thread_unblock :: "tid \<Rightarrow> kernel \<Rightarrow> error + kernel" where
  "thread_unblock t k =
     (let old_level = intr_get_level k; k1 = intr_disable k in
      if status (threads k1 t) \<noteq> THREAD_BLOCKED then Inl ASSERT_status_blocked
      else
        (let k2 = upd_thread t (\<lambda>th. th\<lparr>status := THREAD_READY\<rparr>) k1;
             k3 = k2\<lparr>ready_list := list_insert_ordered (compare_ready_priority k2) t (ready_list k2)\<rparr>
         in Inr (intr_set_level old_level k3)))"

definition thread_yield :: "kernel \<Rightarrow> error + kernel" where
  "thread_yield k =
     bindE (thread_current k) (\<lambda>curr.
       if intr_context k then Inl ASSERT_not_intr_context
       else
         (let old_level = intr_get_level k; k1 = intr_disable k;
              k2 = (if Some curr \<noteq> idle_thread k1
                    then k1\<lparr>ready_list := list_insert_ordered (compare_ready_priority k1) curr (ready_list k1)\<rparr>
                    else k1)
          in bindE (do_schedule THREAD_READY k2) (\<lambda>k3.
               if running k3 = curr then Inr (intr_set_level old_level k3) else Inr k3)))"

definition preemption_by_priority :: "kernel \<Rightarrow> error + kernel" where
  "preemption_by_priority k =
     (case ready_list k of [] \<Rightarrow> Inr k
      | front # _ \<Rightarrow>
          bindE (thread_current k) (\<lambda>cur.
            if priority (threads k cur) < priority (threads k front) then thread_yield k
            else Inr k))"

definition thread_tick :: "kernel \<Rightarrow> error + kernel" where
  "thread_tick k =
     bindE (thread_current k) (\<lambda>t.
       let k1 = (if Some t = idle_thread k then k\<lparr>idle_ticks := idle_ticks k + 1\<rparr>
                 else k\<lparr>kernel_ticks := kernel_ticks k + 1\<rparr>);
           k2 = k1\<lparr>thread_ticks := thread_ticks k1 + 1\<rparr>
       in if thread_ticks k2 \<ge> TIME_SLICE then Inr (intr_yield_on_return k2) else Inr k2)"

text \<open>
  \<^verbatim>\<open>thread_set_priority\<close> runs the preemption check last; the only code after it
  restores the interrupt level, which a caller that was switched out does when it is
  dispatched again.
\<close>

definition recaculate_priority :: "kernel \<Rightarrow> error + kernel" where
  "recaculate_priority k =
     bindE (thread_current k) (\<lambda>cur.
       let k1 = upd_thread cur (\<lambda>t. t\<lparr>priority := original_priority t\<rparr>) k in
       case donators (threads k1 cur) of [] \<Rightarrow> Inr k1
       | top_donor # _ \<Rightarrow>
           if priority (threads k1 top_donor) > priority (threads k1 cur)
           then Inr (upd_thread cur (\<lambda>t. t\<lparr>priority := priority (threads k1 top_donor)\<rparr>) k1)
           else Inr k1)"

definition thread_set_priority :: "int \<Rightarrow> kernel \<Rightarrow> error + kernel" where
  "thread_set_priority new_priority k =
     bindE (thread_current k) (\<lambda>cur.
       let k1 = upd_thread cur (\<lambda>t. t\<lparr>original_priority := new_priority\<rparr>) k in
       bindE (recaculate_priority k1) (\<lambda>k2.
         let old_level = intr_get_level k2; k3 = intr_disable k2 in
         bindE (preemption_by_priority k3) (\<lambda>k4.
           if running k4 = cur then Inr (intr_set_level old_level k4) else Inr k4)))"

definition thread_get_priority :: "kernel \<Rightarrow> error + int" where
  "thread_get_priority k = bindE (thread_current k) (\<lambda>cur. Inr (priority (threads k cur)))"

section \<open>synch.c: semaphores\<close>

definition sema_init :: "sema_ptr \<Rightarrow> 32 word \<Rightarrow> kernel \<Rightarrow> kernel" where
  "sema_init sema v k = put_sema sema \<lparr>sem_value = v, waiters = []\<rparr> k"

text \<open>
  The loop of \<^verbatim>\<open>sema_down\<close>, from its test.  When the value is 0 the thread is put
  among the waiters and blocks: the model ends there with \<open>False\<close>, and the test is
  evaluated again (by \<open>sema_down_loop\<close> again) when \<^verbatim>\<open>thread_block\<close> returns, that is
  when the thread is dispatched again.  Otherwise the value is taken, the interrupt
  level restored and the function returns: \<open>True\<close>.
\<close>

definition sema_down_loop :: "sema_ptr \<Rightarrow> intr_level \<Rightarrow> kernel \<Rightarrow> error + bool \<times> kernel" where
  "sema_down_loop sema old_level k =
     (if sem_value (get_sema k sema) = 0 then
        bindE (thread_current k) (\<lambda>cur.
          let s = get_sema k sema;
              k1 = put_sema sema
                     (s\<lparr>waiters := list_insert_ordered (compare_ready_priority k) cur (waiters s)\<rparr>) k
          in bindE (thread_block k1) (\<lambda>k2. Inr (False, k2)))
      else
        (let s = get_sema k sema;
             k1 = put_sema sema (s\<lparr>sem_value := sem_value s - 1\<rparr>) k
         in Inr (True, intr_set_level old_level k1)))"

definition sema_down :: "sema_ptr \<Rightarrow> kernel \<Rightarrow> error + bool \<times> kernel" where
  "sema_down sema k =
     (if intr_context k then Inl ASSERT_not_intr_context
      else sema_down_loop sema (intr_get_level k) (intr_disable k))"

definition sema_try_down :: "sema_ptr \<Rightarrow> kernel \<Rightarrow> bool \<times> kernel" where
  "sema_try_down sema k =
     (let old_level = intr_get_level k; k1 = intr_disable k; s = get_sema k1 sema in
      if sem_value s > 0
      then (True, intr_set_level old_level (put_sema sema (s\<lparr>sem_value := sem_value s - 1\<rparr>) k1))
      else (False, intr_set_level old_level k1))"

text \<open>
  The first half of \<^verbatim>\<open>sema_up\<close>: when there are waiters, sort them, pop the front
  and unblock it.  The sorted list has the entries of the old one, so it is not empty
  where its front is popped.
\<close>

definition sema_up_wake :: "sema_ptr \<Rightarrow> kernel \<Rightarrow> error + kernel" where
  "sema_up_wake sema k =
     (let s = get_sema k sema in
      if waiters s = [] then Inr k
      else
        (let sorted = list_sort (compare_ready_priority k) (waiters s)
         in thread_unblock (hd sorted) (put_sema sema (s\<lparr>waiters := tl sorted\<rparr>) k)))"

definition sema_up :: "sema_ptr \<Rightarrow> kernel \<Rightarrow> error + kernel" where
  "sema_up sema k =
     (let caller = running k; old_level = intr_get_level k; k1 = intr_disable k in
      bindE (sema_up_wake sema k1) (\<lambda>k2.
        let s = get_sema k2 sema;
            k3 = put_sema sema (s\<lparr>sem_value := sem_value s + 1\<rparr>) k2
        in bindE (preemption_by_priority k3) (\<lambda>k4.
             if running k4 = caller then Inr (intr_set_level old_level k4) else Inr k4)))"

text \<open>
  \<^verbatim>\<open>compare_sema_priority\<close> compares the priorities of the threads at the front of the
  two slots' waiters lists.  Here the read of the front of an empty list is flagged
  as an error.
\<close>

definition compare_sema_priority :: "kernel \<Rightarrow> nat \<Rightarrow> nat \<Rightarrow> error + bool" where
  "compare_sema_priority k a b =
     (case waiters (sema_elems k a) of [] \<Rightarrow> Inl READ_front_of_empty_list
      | ta # _ \<Rightarrow>
          (case waiters (sema_elems k b) of [] \<Rightarrow> Inl READ_front_of_empty_list
           | tb # _ \<Rightarrow> Inr (compare_ready_priority k ta tb)))"

text \<open>
  The same comparator as the machine runs it.  \<^verbatim>\<open>list_begin\<close> of an empty waiters list
  is the list's tail sentinel, and the priority read through it is whatever the memory
  around the slot holds: \<open>junk k s\<close> for the slot \<open>s\<close> in the state \<open>k\<close>.  The read
  returns, and the comparison goes on with that number.
\<close>

definition front_priority :: "(kernel \<Rightarrow> nat \<Rightarrow> int) \<Rightarrow> kernel \<Rightarrow> nat \<Rightarrow> int" where
  "front_priority junk k s =
     (case waiters (sema_elems k s) of [] \<Rightarrow> junk k s | t # _ \<Rightarrow> priority (threads k t))"

definition compare_sema_priority_raw ::
  "(kernel \<Rightarrow> nat \<Rightarrow> int) \<Rightarrow> kernel \<Rightarrow> nat \<Rightarrow> nat \<Rightarrow> bool" where
  "compare_sema_priority_raw junk k a b = (front_priority junk k a > front_priority junk k b)"

section \<open>synch.c: locks and priority donation\<close>

abbreviation MAX_DEPTH :: nat where
  "MAX_DEPTH \<equiv> 8"

definition lock_init :: "nat \<Rightarrow> kernel \<Rightarrow> kernel" where
  "lock_init l k =
     sema_init (LOCK_SEMA l) 1 (k\<lparr>locks := (locks k)(l := (locks k l)\<lparr>holder := None\<rparr>)\<rparr>)"

definition lock_held_by_current_thread :: "nat \<Rightarrow> kernel \<Rightarrow> error + bool" where
  "lock_held_by_current_thread l k =
     bindE (thread_current k) (\<lambda>cur. Inr (holder (locks k l) = Some cur))"

text \<open>The loop of \<^verbatim>\<open>donate_priority\<close>, with its local variables as arguments.\<close>

function donate_priority_loop :: "tid \<Rightarrow> tid option \<Rightarrow> nat \<Rightarrow> kernel \<Rightarrow> kernel" where
  "donate_priority_loop curr_thread hd_ptr depth k =
     (case hd_ptr of None \<Rightarrow> k
      | Some h \<Rightarrow>
          if depth < MAX_DEPTH then
            (let k1 = (if priority (threads k curr_thread) > priority (threads k h)
                       then upd_thread h (\<lambda>t. t\<lparr>priority := priority (threads k curr_thread)\<rparr>) k
                       else k)
             in case waiting_lock (threads k1 h) of
                  Some l \<Rightarrow> donate_priority_loop curr_thread (holder (locks k1 l)) (depth + 1) k1
                | None \<Rightarrow> k1)
          else k)"
  by pat_completeness auto
termination
  by (relation "measure (\<lambda>(c, h, depth, k). MAX_DEPTH - depth)") auto

declare donate_priority_loop.simps [simp del]

definition donate_priority :: "tid option \<Rightarrow> kernel \<Rightarrow> error + kernel" where
  "donate_priority hd_ptr k =
     bindE (thread_current k) (\<lambda>curr_thread. Inr (donate_priority_loop curr_thread hd_ptr 0 k))"

text \<open>The branch \<^verbatim>\<open>if (lock->holder != NULL)\<close> of \<^verbatim>\<open>lock_acquire\<close>.\<close>

definition lock_acquire_donate :: "nat \<Rightarrow> kernel \<Rightarrow> error + kernel" where
  "lock_acquire_donate l k =
     (case holder (locks k l) of None \<Rightarrow> Inr k
      | Some h \<Rightarrow>
          bindE (thread_current k) (\<lambda>cur.
            let k1 = upd_thread cur (\<lambda>t. t\<lparr>waiting_lock := Some l\<rparr>) k;
                k2 = upd_thread h (\<lambda>t. t\<lparr>donators :=
                       list_insert_ordered (compare_donation_priority k1) cur (donators t)\<rparr>) k1
            in donate_priority (holder (locks k2 l)) k2))"

text \<open>
  What follows \<^verbatim>\<open>sema_down\<close> in \<^verbatim>\<open>lock_acquire\<close>, run once the semaphore is taken.
\<close>

definition lock_acquire_take :: "nat \<Rightarrow> kernel \<Rightarrow> error + kernel" where
  "lock_acquire_take l k =
     bindE (thread_current k) (\<lambda>cur.
       let k1 = k\<lparr>locks := (locks k)(l := (locks k l)\<lparr>holder := Some cur\<rparr>)\<rparr> in
       bindE (thread_current k1) (\<lambda>cur1.
         Inr (upd_thread cur1 (\<lambda>t. t\<lparr>waiting_lock := None\<rparr>) k1)))"

definition lock_acquire :: "nat \<Rightarrow> kernel \<Rightarrow> error + bool \<times> kernel" where
  "lock_acquire l k =
     (if intr_context k then Inl ASSERT_not_intr_context
      else bindE (lock_held_by_current_thread l k) (\<lambda>held.
        if held then Inl ASSERT_lock_not_held
        else bindE (lock_acquire_donate l k) (\<lambda>k1.
          bindE (sema_down (LOCK_SEMA l) k1) (\<lambda>(taken, k2).
            if taken then bindE (lock_acquire_take l k2) (\<lambda>k3. Inr (True, k3))
            else Inr (False, k2)))))"

definition lock_try_acquire :: "nat \<Rightarrow> kernel \<Rightarrow> error + bool \<times> kernel" where
  "lock_try_acquire l k =
     bindE (lock_held_by_current_thread l k) (\<lambda>held.
       if held then Inl ASSERT_lock_not_held
       else
         (let (success, k1) = sema_try_down (LOCK_SEMA l) k in
          if success
          then bindE (thread_current k1) (\<lambda>cur.
                 Inr (True, k1\<lparr>locks := (locks k1)(l := (locks k1 l)\<lparr>holder := Some cur\<rparr>)\<rparr>))
          else Inr (False, k1)))"

text \<open>
  The loop of \<^verbatim>\<open>remove_donations\<close> over the donors: an entry whose \<^verbatim>\<open>waiting_lock\<close>
  is the lock is unlinked, any other is stepped over.
\<close>

fun remove_donations_loop :: "kernel \<Rightarrow> nat \<Rightarrow> tid list \<Rightarrow> tid list" where
  "remove_donations_loop k l [] = []"
| "remove_donations_loop k l (donor # es) =
     (if waiting_lock (threads k donor) = Some l then remove_donations_loop k l es
      else donor # remove_donations_loop k l es)"

definition remove_donations :: "nat \<Rightarrow> kernel \<Rightarrow> error + kernel" where
  "remove_donations l k =
     bindE (thread_current k) (\<lambda>curr_thread.
       Inr (upd_thread curr_thread
              (\<lambda>t. t\<lparr>donators := remove_donations_loop k l (donators t)\<rparr>) k))"

definition lock_release :: "nat \<Rightarrow> kernel \<Rightarrow> error + kernel" where
  "lock_release l k =
     bindE (lock_held_by_current_thread l k) (\<lambda>held.
       if held then
         bindE (remove_donations l k) (\<lambda>k1.
           bindE (recaculate_priority k1) (\<lambda>k2.
             sema_up (LOCK_SEMA l) (k2\<lparr>locks := (locks k2)(l := (locks k2 l)\<lparr>holder := None\<rparr>)\<rparr>)))
       else Inl ASSERT_lock_held)"

section \<open>synch.c: condition variables\<close>

definition cond_init :: "nat \<Rightarrow> kernel \<Rightarrow> kernel" where
  "cond_init c k = k\<lparr>conds := (conds k)(c := [])\<rparr>"

text \<open>
  \<^verbatim>\<open>cond_wait\<close> with the address \<open>w\<close> of its local \<^verbatim>\<open>struct semaphore_elem waiter\<close>.
  The slot is initialised and inserted first; then the lock is released and the
  thread goes down on the slot's semaphore.
\<close>

definition cond_wait_insert :: "nat \<Rightarrow> nat \<Rightarrow> kernel \<Rightarrow> error + kernel" where
  "cond_wait_insert c w k =
     (let k1 = sema_init (ELEM_SEMA w) 0 k in
      bindE (list_insert_ordered_E (compare_sema_priority k1) w (conds k1 c)) (\<lambda>ws.
        Inr (k1\<lparr>conds := (conds k1)(c := ws)\<rparr>)))"

definition cond_wait :: "nat \<Rightarrow> nat \<Rightarrow> nat \<Rightarrow> kernel \<Rightarrow> error + kernel" where
  "cond_wait c l w k =
     (if intr_context k then Inl ASSERT_not_intr_context
      else bindE (lock_held_by_current_thread l k) (\<lambda>held.
        if held then
          bindE (cond_wait_insert c w k) (\<lambda>k1.
            bindE (lock_release l k1) (\<lambda>k2.
              if running k2 = running k then
                bindE (sema_down (ELEM_SEMA w) k2) (\<lambda>(taken, k3).
                  if taken then bindE (lock_acquire l k3) (\<lambda>(again, k4). Inr k4)
                  else Inr k3)
              else Inr k2))
        else Inl ASSERT_lock_held))"

text \<open>
  \<^verbatim>\<open>cond_signal\<close> sorts the slots with the comparator as the machine runs it, pops the
  first slot and ups its semaphore.
\<close>

definition cond_signal ::
  "(kernel \<Rightarrow> nat \<Rightarrow> int) \<Rightarrow> nat \<Rightarrow> nat \<Rightarrow> kernel \<Rightarrow> error + kernel" where
  "cond_signal junk c l k =
     (if intr_context k then Inl ASSERT_not_intr_context
      else bindE (lock_held_by_current_thread l k) (\<lambda>held.
        if held then
          (if conds k c = [] then Inr k
           else let sorted = list_sort (compare_sema_priority_raw junk k) (conds k c) in
                sema_up (ELEM_SEMA (hd sorted)) (k\<lparr>conds := (conds k)(c := tl sorted)\<rparr>))
        else Inl ASSERT_lock_held))"

text \<open>
  A \<^verbatim>\<open>cond_signal\<close> that woke a thread of higher priority switched to it inside
  \<^verbatim>\<open>thread_yield\<close>.  The caller goes on when it is dispatched again: \<open>others\<close> gives the
  state at that moment, after whatever the other threads did from the state at the
  switch (\<open>Inl\<close> when one of them brought the kernel down).  The caller then leaves
  \<^verbatim>\<open>thread_yield\<close> and \<^verbatim>\<open>sema_up\<close>, which restores the interrupt level it had found.
\<close>

definition signal_resume ::
  "(kernel \<Rightarrow> error + kernel) \<Rightarrow> kernel \<Rightarrow> kernel \<Rightarrow> error + kernel" where
  "signal_resume others k k' =
     (if running k' = running k then Inr k'
      else bindE (others k') (\<lambda>y. Inr (intr_set_level (intr_lvl k) y)))"

text \<open>
  The loop of \<^verbatim>\<open>cond_broadcast\<close>.  It keeps a record of the signals made, each as the
  state before and the state after the call of \<^verbatim>\<open>cond_signal\<close>.  A loop that does not end
  has the value \<open>None\<close>.
\<close>

partial_function (option) cond_broadcast_loop ::
  "(kernel \<Rightarrow> nat \<Rightarrow> int) \<Rightarrow> (kernel \<Rightarrow> error + kernel) \<Rightarrow> nat \<Rightarrow> nat \<Rightarrow>
   (kernel \<times> kernel) list \<Rightarrow> kernel \<Rightarrow> (error + (kernel \<times> kernel) list \<times> kernel) option" where
  "cond_broadcast_loop junk others c l sigs k =
     (if conds k c = [] then Some (Inr (sigs, k))
      else case cond_signal junk c l k of
             Inl e \<Rightarrow> Some (Inl e)
           | Inr k' \<Rightarrow>
               (case signal_resume others k k' of
                  Inl e \<Rightarrow> Some (Inl e)
                | Inr k'' \<Rightarrow> cond_broadcast_loop junk others c l (sigs @ [(k, k')]) k''))"

definition cond_broadcast ::
  "(kernel \<Rightarrow> nat \<Rightarrow> int) \<Rightarrow> (kernel \<Rightarrow> error + kernel) \<Rightarrow> nat \<Rightarrow> nat \<Rightarrow> kernel \<Rightarrow>
   (error + (kernel \<times> kernel) list \<times> kernel) option" where
  "cond_broadcast junk others c l k = cond_broadcast_loop junk others c l [] k"

section \<open>timer.c\<close>

definition compare_tick :: "kernel \<Rightarrow> tid \<Rightarrow> tid \<Rightarrow> bool" where
  "compare_tick k a b = (wakeup_tick (threads k a) < wakeup_tick (threads k b))"

definition timer_ticks :: "kernel \<Rightarrow> int \<times> kernel" where
  "timer_ticks k =
     (let old_level = intr_get_level k; k1 = intr_disable k; t = ticks k1
      in (t, intr_set_level old_level k1))"

definition timer_sleep :: "int \<Rightarrow> kernel \<Rightarrow> error + kernel" where
  "timer_sleep n k =
     (let (start, k0) = timer_ticks k in
      if intr_get_level k0 \<noteq> INTR_ON then Inl ASSERT_intr_on
      else bindE (thread_current k0) (\<lambda>t.
        let k1 = upd_thread t (\<lambda>th. th\<lparr>wakeup_tick := start + n\<rparr>) k0;
            old_level = intr_get_level k1; k2 = intr_disable k1;
            k3 = k2\<lparr>sleep_list := list_insert_ordered (compare_tick k2) t (sleep_list k2)\<rparr>
        in bindE (thread_block k3) (\<lambda>k4.
             if running k4 = t then Inr (intr_set_level old_level k4) else Inr k4)))"

text \<open>
  The loop of \<^verbatim>\<open>timer_interrupt\<close> over the sleep list, whose entries are its first
  argument: an expired front is popped and unblocked, the first front that has not
  expired ends the loop.
\<close>

fun timer_wake :: "tid list \<Rightarrow> kernel \<Rightarrow> error + kernel" where
  "timer_wake [] k = Inr k"
| "timer_wake (t # es) k =
     (if wakeup_tick (threads k t) \<le> ticks k
      then bindE (thread_unblock t (k\<lparr>sleep_list := es\<rparr>)) (timer_wake es)
      else Inr k)"

definition timer_interrupt :: "kernel \<Rightarrow> error + kernel" where
  "timer_interrupt k =
     (let k1 = k\<lparr>ticks := ticks k + 1\<rparr> in
      bindE (thread_tick k1) (\<lambda>k2.
        if sleep_list k2 = [] then Inr k2 else timer_wake (sleep_list k2) k2))"

section \<open>Traces, sample states and auxiliary notions\<close>

text \<open>
  A chain of holders: each thread of the list waits for a lock that the next thread
  of the list holds.
\<close>

fun holder_chain :: "kernel \<Rightarrow> tid list \<Rightarrow> bool" where
  "holder_chain k [] = True"
| "holder_chain k [h] = True"
| "holder_chain k (h # h' # hs) =
     (case waiting_lock (threads k h) of None \<Rightarrow> False
      | Some l \<Rightarrow> holder (locks k l) = Some h' \<and> holder_chain k (h' # hs))"

text \<open>
  One hop of the donation walk: \<open>h\<close> gets the priority of \<open>c\<close> when its own is lower.
\<close>

definition raise_to :: "tid \<Rightarrow> tid \<Rightarrow> kernel \<Rightarrow> kernel" where
  "raise_to c h k =
     (if priority (threads k c) > priority (threads k h)
      then upd_thread h (\<lambda>t. t\<lparr>priority := priority (threads k c)\<rparr>) k else k)"

text \<open>
  A change of the scheduler's state only: the locks, semaphores, conditions, the sleep
  list and the clock are the same, and the threads differ in their status at most.
\<close>

definition sched_only :: "kernel \<Rightarrow> kernel \<Rightarrow> bool" where
  "sched_only k k' =
     (locks k' = locks k \<and> semas k' = semas k \<and> sema_elems k' = sema_elems k \<and>
      conds k' = conds k \<and> sleep_list k' = sleep_list k \<and> ticks k' = ticks k \<and>
      in_external_intr k' = in_external_intr k \<and> idle_thread k' = idle_thread k \<and>
      initial_thread k' = initial_thread k \<and>
      (\<forall>t. (threads k' t)\<lparr>status := THREAD_READY\<rparr> = (threads k t)\<lparr>status := THREAD_READY\<rparr>))"

text \<open>
  The threads differ in their status at most.
\<close>

definition thr_frame :: "kernel \<Rightarrow> kernel \<Rightarrow> bool" where
  "thr_frame k k' =
     (\<forall>t. (threads k' t)\<lparr>status := THREAD_READY\<rparr> = (threads k t)\<lparr>status := THREAD_READY\<rparr>)"

text \<open>
  Thread 0 (priority 50) runs.  The threads 1 to 9 (priority 10) form a chain of nine
  holders: thread \<open>t\<close> holds lock \<open>t - 1\<close> and, up to thread 8, waits for lock \<open>t\<close>.
\<close>

definition chain_demo :: kernel where
  "chain_demo =
     \<lparr>threads = (\<lambda>t. \<lparr>status = (if t = 0 then THREAD_RUNNING else THREAD_BLOCKED),
                      priority = (if t = 0 then 50 else 10),
                      original_priority = (if t = 0 then 50 else 10),
                      donators = (if 2 \<le> t \<and> t \<le> 9 then [t - 1] else []),
                      waiting_lock = (if 1 \<le> t \<and> t \<le> 8 then Some t else None),
                      wakeup_tick = 0\<rparr>),
      locks = (\<lambda>l. \<lparr>holder = Some (l + 1),
                    semaphore = \<lparr>sem_value = 0, waiters = (if 1 \<le> l \<and> l \<le> 8 then [l] else [])\<rparr>\<rparr>),
      semas = (\<lambda>a. \<lparr>sem_value = 0, waiters = []\<rparr>),
      sema_elems = (\<lambda>a. \<lparr>sem_value = 0, waiters = []\<rparr>),
      conds = (\<lambda>c. []),
      running = 0, ready_list = [], sleep_list = [], destruction_req = [],
      idle_thread = Some 100, initial_thread = 0, thread_ticks = 0,
      idle_ticks = 0, kernel_ticks = 0, ticks = 0,
      intr_lvl = INTR_ON, in_external_intr = False, yield_on_return = False\<rparr>"

text \<open>
  The scheduler has a thread to run: the ready list is not empty or the idle thread
  has been created.
\<close>

definition next_thread_exists :: "kernel \<Rightarrow> bool" where
  "next_thread_exists k = (fst (next_thread_to_run k) \<noteq> None)"

text \<open>
  Thread 0 (priority 31) runs; thread 1 (priority 40) is parked on semaphore 0.
  In \<open>isr_demo True\<close> an external interrupt handler is running on thread 0's stack,
  in \<open>isr_demo False\<close> thread 0 itself makes the call.
\<close>

definition isr_demo :: "bool \<Rightarrow> kernel" where
  "isr_demo in_handler =
     \<lparr>threads = (\<lambda>t. \<lparr>status = (if t = 0 then THREAD_RUNNING else THREAD_BLOCKED),
                      priority = (if t = 1 then 40 else if t = 0 then 31 else 0),
                      original_priority = (if t = 1 then 40 else if t = 0 then 31 else 0),
                      donators = [], waiting_lock = None, wakeup_tick = 0\<rparr>),
      locks = (\<lambda>l. \<lparr>holder = None, semaphore = \<lparr>sem_value = 1, waiters = []\<rparr>\<rparr>),
      semas = (\<lambda>a. \<lparr>sem_value = 0, waiters = (if a = 0 then [1] else [])\<rparr>),
      sema_elems = (\<lambda>a. \<lparr>sem_value = 0, waiters = []\<rparr>),
      conds = (\<lambda>c. []),
      running = 0, ready_list = [], sleep_list = [], destruction_req = [],
      idle_thread = Some 2, initial_thread = 0, thread_ticks = 0,
      idle_ticks = 0, kernel_ticks = 0, ticks = 0,
      intr_lvl = (if in_handler then INTR_OFF else INTR_ON),
      in_external_intr = in_handler, yield_on_return = False\<rparr>"

text \<open>
  Thread 0 runs and holds lock 0; condition 0 already has the slot 5, on whose
  semaphore thread 1 is parked.
\<close>

definition cond_demo :: kernel where
  "cond_demo =
     \<lparr>threads = (\<lambda>t. \<lparr>status = (if t = 0 then THREAD_RUNNING else THREAD_BLOCKED),
                      priority = 31, original_priority = 31,
                      donators = [], waiting_lock = None, wakeup_tick = 0\<rparr>),
      locks = (\<lambda>l. \<lparr>holder = (if l = 0 then Some 0 else None),
                    semaphore = \<lparr>sem_value = (if l = 0 then 0 else 1), waiters = []\<rparr>\<rparr>),
      semas = (\<lambda>a. \<lparr>sem_value = 0, waiters = []\<rparr>),
      sema_elems = (\<lambda>a. \<lparr>sem_value = 0, waiters = (if a = 5 then [1] else [])\<rparr>),
      conds = (\<lambda>c. if c = 0 then [5] else []),
      running = 0, ready_list = [], sleep_list = [], destruction_req = [],
      idle_thread = Some 2, initial_thread = 0, thread_ticks = 0,
      idle_ticks = 0, kernel_ticks = 0, ticks = 0,
      intr_lvl = INTR_ON, in_external_intr = False, yield_on_return = False\<rparr>"

text \<open>
  The thread is not parked.
\<close>

definition not_blocked :: "kernel \<Rightarrow> tid \<Rightarrow> bool" where
  "not_blocked k t = (status (threads k t) \<noteq> THREAD_BLOCKED)"

text \<open>
  A trace lists the calls that the running threads make, one after the other; each
  call is made by whichever thread is running when its turn comes.
  \<open>SEMA_DOWN_RESUME\<close> is a thread that was parked in \<^verbatim>\<open>sema_down\<close> going round the
  loop again once it is dispatched, and \<open>RESTORE_LEVEL\<close> is the
  \<^verbatim>\<open>intr_set_level (old_level)\<close> that ends a function whose caller had been switched
  out.
\<close>

datatype call =
    SEMA_UP sema_ptr
  | SEMA_DOWN sema_ptr
  | SEMA_DOWN_RESUME sema_ptr intr_level
  | SEMA_TRY_DOWN sema_ptr
  | LOCK_ACQUIRE nat
  | LOCK_RELEASE nat
  | SET_PRIORITY int
  | TIMER_SLEEP int
  | TIMER_INTERRUPT
  | RESTORE_LEVEL intr_level

fun do_call :: "call \<Rightarrow> kernel \<Rightarrow> error + kernel" where
  "do_call (SEMA_UP s) k = sema_up s k"
| "do_call (SEMA_DOWN s) k = bindE (sema_down s k) (\<lambda>(taken, k'). Inr k')"
| "do_call (SEMA_DOWN_RESUME s l) k = bindE (sema_down_loop s l k) (\<lambda>(taken, k'). Inr k')"
| "do_call (SEMA_TRY_DOWN s) k = Inr (snd (sema_try_down s k))"
| "do_call (LOCK_ACQUIRE l) k = bindE (lock_acquire l k) (\<lambda>(taken, k'). Inr k')"
| "do_call (LOCK_RELEASE l) k = lock_release l k"
| "do_call (SET_PRIORITY p) k = thread_set_priority p k"
| "do_call (TIMER_SLEEP n) k = timer_sleep n k"
| "do_call TIMER_INTERRUPT k = timer_interrupt k"
| "do_call (RESTORE_LEVEL l) k = Inr (intr_set_level l k)"

fun do_calls :: "call list \<Rightarrow> kernel \<Rightarrow> error + kernel" where
  "do_calls [] k = Inr k"
| "do_calls (c # cs) k = bindE (do_call c k) (do_calls cs)"

text \<open>
  The main thread 0 (priority 31) runs.  Threads 1 (priority 32), 2 and 3 (priority 34)
  wait at start gates, the semaphores 1, 2 and 3.  Semaphore 0 has value 0 and no
  waiters, lock 0 is free, thread 9 is the idle thread.
\<close>

definition gate_demo :: kernel where
  "gate_demo =
     \<lparr>threads = (\<lambda>t. \<lparr>status = (if t = 0 then THREAD_RUNNING else THREAD_BLOCKED),
                      priority = (if t = 0 then 31 else if t = 1 then 32
                                  else if t = 2 \<or> t = 3 then 34 else 0),
                      original_priority = (if t = 0 then 31 else if t = 1 then 32
                                  else if t = 2 \<or> t = 3 then 34 else 0),
                      donators = [], waiting_lock = None, wakeup_tick = 0\<rparr>),
      locks = (\<lambda>l. \<lparr>holder = None, semaphore = \<lparr>sem_value = 1, waiters = []\<rparr>\<rparr>),
      semas = (\<lambda>a. \<lparr>sem_value = 0, waiters = (if 1 \<le> a \<and> a \<le> 3 then [a] else [])\<rparr>),
      sema_elems = (\<lambda>a. \<lparr>sem_value = 0, waiters = []\<rparr>),
      conds = (\<lambda>c. []),
      running = 0, ready_list = [], sleep_list = [], destruction_req = [],
      idle_thread = Some 9, initial_thread = 0, thread_ticks = 0,
      idle_ticks = 0, kernel_ticks = 0, ticks = 0,
      intr_lvl = INTR_ON, in_external_intr = False, yield_on_return = False\<rparr>"

text \<open>
  Main opens gate 1: thread 1 runs, takes lock 0 and goes down on semaphore 0.
  Main opens gate 2: thread 2 runs and goes down on semaphore 0.
  Main opens gate 3: thread 3 runs and acquires lock 0, donating to thread 1.
\<close>

definition donate_sema_trace :: "call list" where
  "donate_sema_trace =
     [SEMA_UP (SEMA 1), SEMA_DOWN_RESUME (SEMA 1) INTR_ON, LOCK_ACQUIRE 0, SEMA_DOWN (SEMA 0),
      RESTORE_LEVEL INTR_ON,
      SEMA_UP (SEMA 2), SEMA_DOWN_RESUME (SEMA 2) INTR_ON, SEMA_DOWN (SEMA 0),
      RESTORE_LEVEL INTR_ON,
      SEMA_UP (SEMA 3), SEMA_DOWN_RESUME (SEMA 3) INTR_ON, LOCK_ACQUIRE 0,
      RESTORE_LEVEL INTR_ON]"

text \<open>
  Two threads of priority 40 are parked on semaphore 0, thread 1 ahead of thread 2;
  the running thread 0 has priority 50.
\<close>

definition fifo_demo :: kernel where
  "fifo_demo =
     \<lparr>threads = (\<lambda>t. \<lparr>status = (if t = 0 then THREAD_RUNNING else THREAD_BLOCKED),
                      priority = (if t = 0 then 50 else 40),
                      original_priority = (if t = 0 then 50 else 40),
                      donators = [], waiting_lock = None, wakeup_tick = 0\<rparr>),
      locks = (\<lambda>l. \<lparr>holder = None, semaphore = \<lparr>sem_value = 1, waiters = []\<rparr>\<rparr>),
      semas = (\<lambda>a. \<lparr>sem_value = 0, waiters = (if a = 0 then [1, 2] else [])\<rparr>),
      sema_elems = (\<lambda>a. \<lparr>sem_value = 0, waiters = []\<rparr>),
      conds = (\<lambda>c. []),
      running = 0, ready_list = [], sleep_list = [], destruction_req = [],
      idle_thread = Some 9, initial_thread = 0, thread_ticks = 0,
      idle_ticks = 0, kernel_ticks = 0, ticks = 0,
      intr_lvl = INTR_ON, in_external_intr = False, yield_on_return = False\<rparr>"


text \<open>
  The waiters of a semaphore are in descending order of effective priority.
\<close>

definition waiters_sorted :: "kernel \<Rightarrow> sema_ptr \<Rightarrow> bool" where
  "waiters_sorted k p =
     sorted_wrt (\<lambda>a b. priority (threads k a) \<ge> priority (threads k b)) (waiters (get_sema k p))"

text \<open>
  The states that a semaphore reaches from its initialisation: by down, try_down and
  up on it, each called by the thread that is running then, and by any other code
  that runs in between and leaves the value and the waiters list of this semaphore as
  they are (other threads, other semaphores, locks and their donations, the timer).
  The number counts the waiters that an up has unblocked and that have not yet gone
  round the loop of \<^verbatim>\<open>sema_down\<close> again.  The flag tells that no thread on the waiters
  list has had its priority changed since the list was last sorted by an up, or since
  the initialisation.
\<close>

inductive sema_reachable :: "sema_ptr \<Rightarrow> nat \<Rightarrow> bool \<Rightarrow> kernel \<Rightarrow> bool" for p where
  reach_init: "sema_reachable p 0 True (sema_init p v k)"
| reach_down: "sema_reachable p n c k \<Longrightarrow> sema_down p k = Inr (taken, k') \<Longrightarrow>
     sema_reachable p n c k'"
| reach_resume: "sema_reachable p n c k \<Longrightarrow> sema_down_loop p old_level k = Inr (taken, k') \<Longrightarrow>
     sema_reachable p (n - 1) c k'"
| reach_try_down: "sema_reachable p n c k \<Longrightarrow> sema_try_down p k = (taken, k') \<Longrightarrow>
     sema_reachable p n c k'"
| reach_up: "sema_reachable p n c k \<Longrightarrow> sema_up p k = Inr k' \<Longrightarrow>
     sema_reachable p (if waiters (get_sema k p) = [] then n else n + 1) True k'"
| reach_other: "sema_reachable p n c k \<Longrightarrow> get_sema k' p = get_sema k p \<Longrightarrow>
     sema_reachable p n
       (c \<and> (\<forall>t \<in> set (waiters (get_sema k p)). priority (threads k' t) = priority (threads k t)))
       k'"

text \<open>
  The main thread 0 (priority 31) runs, threads 1 and 2 (priority 20) are ready.
\<close>

definition up_demo :: kernel where
  "up_demo =
     \<lparr>threads = (\<lambda>t. \<lparr>status = (if t = 0 then THREAD_RUNNING
                                else if t = 1 \<or> t = 2 then THREAD_READY else THREAD_BLOCKED),
                      priority = (if t = 0 then 31 else if t = 1 \<or> t = 2 then 20 else 0),
                      original_priority = (if t = 0 then 31 else if t = 1 \<or> t = 2 then 20 else 0),
                      donators = [], waiting_lock = None, wakeup_tick = 0\<rparr>),
      locks = (\<lambda>l. \<lparr>holder = None, semaphore = \<lparr>sem_value = 1, waiters = []\<rparr>\<rparr>),
      semas = (\<lambda>a. \<lparr>sem_value = 0, waiters = []\<rparr>),
      sema_elems = (\<lambda>a. \<lparr>sem_value = 0, waiters = []\<rparr>),
      conds = (\<lambda>c. []),
      running = 0, ready_list = [1, 2], sleep_list = [], destruction_req = [],
      idle_thread = Some 9, initial_thread = 0, thread_ticks = 0,
      idle_ticks = 0, kernel_ticks = 0, ticks = 0,
      intr_lvl = INTR_ON, in_external_intr = False, yield_on_return = False\<rparr>"

text \<open>
  The scenario of \<open>gate_demo\<close> with a donor of priority 36: the main thread 0
  (priority 31) runs, the threads 1 (priority 32), 2 (priority 34) and 3 (priority 36)
  wait at the start gates 1, 2 and 3.  Semaphore 0 has no waiters, lock 0 is free.
\<close>

definition donor_demo :: kernel where
  "donor_demo =
     \<lparr>threads = (\<lambda>t. \<lparr>status = (if t = 0 then THREAD_RUNNING else THREAD_BLOCKED),
                      priority = (if t = 0 then 31 else if t = 1 then 32
                                  else if t = 2 then 34 else if t = 3 then 36 else 0),
                      original_priority = (if t = 0 then 31 else if t = 1 then 32
                                  else if t = 2 then 34 else if t = 3 then 36 else 0),
                      donators = [], waiting_lock = None, wakeup_tick = 0\<rparr>),
      locks = (\<lambda>l. \<lparr>holder = None, semaphore = \<lparr>sem_value = 1, waiters = []\<rparr>\<rparr>),
      semas = (\<lambda>a. \<lparr>sem_value = 0, waiters = (if 1 \<le> a \<and> a \<le> 3 then [a] else [])\<rparr>),
      sema_elems = (\<lambda>a. \<lparr>sem_value = 0, waiters = []\<rparr>),
      conds = (\<lambda>c. []),
      running = 0, ready_list = [], sleep_list = [], destruction_req = [],
      idle_thread = Some 9, initial_thread = 0, thread_ticks = 0,
      idle_ticks = 0, kernel_ticks = 0, ticks = 0,
      intr_lvl = INTR_ON, in_external_intr = False, yield_on_return = False\<rparr>"

text \<open>
  Threads 1 (A), 2 (B) and 3 (C) have the priorities \<open>pa\<close>, \<open>pb\<close> and \<open>pc\<close>; A runs,
  B and C are ready, the tick counter stands at \<open>T0\<close>, and thread 9 is the idle thread.
\<close>

definition sleep_demo :: "int \<Rightarrow> int \<Rightarrow> int \<Rightarrow> int \<Rightarrow> kernel" where
  "sleep_demo T0 pa pb pc =
     \<lparr>threads = (\<lambda>t. \<lparr>status = (if t = 1 then THREAD_RUNNING
                                else if t = 2 \<or> t = 3 then THREAD_READY else THREAD_BLOCKED),
                      priority = (if t = 1 then pa else if t = 2 then pb else if t = 3 then pc else 0),
                      original_priority =
                        (if t = 1 then pa else if t = 2 then pb else if t = 3 then pc else 0),
                      donators = [], waiting_lock = None, wakeup_tick = 0\<rparr>),
      locks = (\<lambda>l. \<lparr>holder = None, semaphore = \<lparr>sem_value = 1, waiters = []\<rparr>\<rparr>),
      semas = (\<lambda>a. \<lparr>sem_value = 0, waiters = []\<rparr>),
      sema_elems = (\<lambda>a. \<lparr>sem_value = 0, waiters = []\<rparr>),
      conds = (\<lambda>c. []),
      running = 1, ready_list = [2, 3], sleep_list = [], destruction_req = [],
      idle_thread = Some 9, initial_thread = 0, thread_ticks = 0,
      idle_ticks = 0, kernel_ticks = 0, ticks = T0,
      intr_lvl = INTR_ON, in_external_intr = False, yield_on_return = False\<rparr>"

text \<open>
  A, B and C call \<^verbatim>\<open>timer_sleep\<close> with 30, 10 and 20 ticks, each with interrupts on
  when its turn comes; then \<open>n\<close> timer interrupts arrive while the idle thread runs.
\<close>

definition sleep_trace :: "nat \<Rightarrow> call list" where
  "sleep_trace n =
     [TIMER_SLEEP 30, RESTORE_LEVEL INTR_ON, TIMER_SLEEP 10, RESTORE_LEVEL INTR_ON,
      TIMER_SLEEP 20, RESTORE_LEVEL INTR_ON] @ replicate n TIMER_INTERRUPT"

text \<open>
  What the sleep scenario observes: the clock, the sleep list and the status of A, B
  and C.
\<close>

definition sleepers :: "kernel \<Rightarrow> int \<times> tid list \<times> thread_status \<times> thread_status \<times> thread_status" where
  "sleepers k = (ticks k, sleep_list k, status (threads k 1), status (threads k 2),
                 status (threads k 3))"






section \<open>Lemmas about the model\<close>

lemma bindE_Inr_iff: "bindE m f = Inr y \<longleftrightarrow> (\<exists>x. m = Inr x \<and> f x = Inr y)"
  by (cases m) (auto simp: bindE_def)

lemma bindE_simps [simp]: "bindE (Inr x) f = f x" "bindE (Inl e) f = Inl e"
  by (simp_all add: bindE_def)

lemma upd_thread_simps [simp]:
  "threads (upd_thread t f k) = (threads k)(t := f (threads k t))"
  "locks (upd_thread t f k) = locks k"
  "semas (upd_thread t f k) = semas k"
  "sema_elems (upd_thread t f k) = sema_elems k"
  "conds (upd_thread t f k) = conds k"
  "running (upd_thread t f k) = running k"
  "ready_list (upd_thread t f k) = ready_list k"
  "sleep_list (upd_thread t f k) = sleep_list k"
  "destruction_req (upd_thread t f k) = destruction_req k"
  "idle_thread (upd_thread t f k) = idle_thread k"
  "initial_thread (upd_thread t f k) = initial_thread k"
  "thread_ticks (upd_thread t f k) = thread_ticks k"
  "ticks (upd_thread t f k) = ticks k"
  "intr_lvl (upd_thread t f k) = intr_lvl k"
  "in_external_intr (upd_thread t f k) = in_external_intr k"
  "yield_on_return (upd_thread t f k) = yield_on_return k"
  by (simp_all add: upd_thread_def)

lemma raise_to_simps [simp]:
  "locks (raise_to c h k) = locks k"
  "waiting_lock (threads (raise_to c h k) t) = waiting_lock (threads k t)"
  "priority (threads (raise_to c h k) c) = priority (threads k c)"
  "priority (threads (raise_to c h k) h) = max (priority (threads k h)) (priority (threads k c))"
  "t \<noteq> h \<Longrightarrow> threads (raise_to c h k) t = threads k t"
  by (auto simp: raise_to_def)

lemma donate_loop_None [simp]: "donate_priority_loop c None d k = k"
  by (simp add: donate_priority_loop.simps)

lemma donate_loop_deep [simp]: "\<not> d < MAX_DEPTH \<Longrightarrow> donate_priority_loop c hp d k = k"
  by (simp add: donate_priority_loop.simps split: option.splits)

lemma donate_loop_Some:
  "d < MAX_DEPTH \<Longrightarrow> donate_priority_loop c (Some h) d k =
     (case waiting_lock (threads k h) of
        Some l \<Rightarrow> donate_priority_loop c (holder (locks k l)) (Suc d) (raise_to c h k)
      | None \<Rightarrow> raise_to c h k)"
  by (subst donate_priority_loop.simps) (auto simp: raise_to_def Let_def split: option.splits)

lemma donate_loop_keeps_high:
  "priority (threads k c) \<le> priority (threads k t) \<Longrightarrow>
   priority (threads (donate_priority_loop c hp d k) t) = priority (threads k t)"
proof (induction "MAX_DEPTH - d" arbitrary: d hp k)
  case 0
  then show ?case by simp
next
  case (Suc n)
  then have d: "d < MAX_DEPTH" and n: "n = MAX_DEPTH - Suc d" by simp_all
  show ?case
  proof (cases hp)
    case None
    then show ?thesis by simp
  next
    case (Some h)
    have pt: "priority (threads (raise_to c h k) t) = priority (threads k t)"
      using Suc.prems by (cases "t = h") (simp_all add: max_def)
    show ?thesis
    proof (cases "waiting_lock (threads k h)")
      case None
      with Some d pt show ?thesis by (simp add: donate_loop_Some)
    next
      case (Some l)
      have "priority (threads (donate_priority_loop c (holder (locks k l)) (Suc d) (raise_to c h k)) t)
            = priority (threads (raise_to c h k) t)"
        using Suc.hyps(1)[OF n] Suc.prems pt by simp
      with \<open>hp = Some h\<close> Some d pt show ?thesis by (simp add: donate_loop_Some)
    qed
  qed
qed

lemma holder_chain_cong:
  "\<forall>t \<in> set hs. waiting_lock (threads k' t) = waiting_lock (threads k t) \<Longrightarrow>
   \<forall>l. holder (locks k' l) = holder (locks k l) \<Longrightarrow>
   holder_chain k' hs = holder_chain k hs"
  by (induction k hs rule: holder_chain.induct) (auto split: option.splits)

lemma donate_loop_chain:
  assumes "holder_chain k (h # hs)" "distinct (h # hs)" "c \<notin> set (h # hs)"
      and "i < length (h # hs)"
  shows "priority (threads (donate_priority_loop c (Some h) d k) ((h # hs) ! i)) =
         (if d + i < MAX_DEPTH
          then max (priority (threads k ((h # hs) ! i))) (priority (threads k c))
          else priority (threads k ((h # hs) ! i)))"
  using assms
proof (induction hs arbitrary: h d k i)
  case Nil
  then have i: "i = 0" by simp
  show ?case
  proof (cases "d < MAX_DEPTH")
    case False
    with i show ?thesis by simp
  next
    case True
    have "priority (threads (donate_priority_loop c hp (Suc d) (raise_to c h k)) h) =
          priority (threads (raise_to c h k) h)" for hp
      by (rule donate_loop_keeps_high) simp
    with True i show ?thesis
      by (simp add: donate_loop_Some split: option.splits)
  qed
next
  case (Cons h' hs)
  from Cons.prems(1) obtain l where wl: "waiting_lock (threads k h) = Some l"
    and hl: "holder (locks k l) = Some h'" and ch: "holder_chain k (h' # hs)"
    by (auto split: option.splits)
  show ?case
  proof (cases "d < MAX_DEPTH")
    case False
    then show ?thesis by simp
  next
    case True
    let ?k1 = "raise_to c h k"
    have step: "donate_priority_loop c (Some h) d k = donate_priority_loop c (Some h') (Suc d) ?k1"
      using True wl hl by (simp add: donate_loop_Some)
    have ch1: "holder_chain ?k1 (h' # hs)"
      using ch by (subst holder_chain_cong[of _ _ k]) simp_all
    show ?thesis
    proof (cases i)
      case 0
      have "priority (threads (donate_priority_loop c (Some h') (Suc d) ?k1) h) =
            priority (threads ?k1 h)"
        by (rule donate_loop_keeps_high) simp
      with 0 True step show ?thesis by simp
    next
      case (Suc j)
      with Cons.prems have j: "j < length (h' # hs)" by simp
      have ne: "(h' # hs) ! j \<noteq> h"
        using Cons.prems(2) j by (metis distinct.simps(2) nth_mem)
      have "priority (threads (donate_priority_loop c (Some h') (Suc d) ?k1) ((h' # hs) ! j)) =
         (if Suc d + j < MAX_DEPTH
          then max (priority (threads ?k1 ((h' # hs) ! j))) (priority (threads ?k1 c))
          else priority (threads ?k1 ((h' # hs) ! j)))"
        using Cons.IH[OF ch1 _ _ j] Cons.prems by simp
      with Suc step ne show ?thesis by simp
    qed
  qed
qed

lemma sched_only_refl [simp]: "sched_only k k"
  by (simp add: sched_only_def)

lemma sched_only_trans: "sched_only k k1 \<Longrightarrow> sched_only k1 k2 \<Longrightarrow> sched_only k k2"
  by (simp add: sched_only_def)

lemma sched_only_fields:
  assumes "sched_only k k'"
  shows "priority (threads k' t) = priority (threads k t)"
    and "original_priority (threads k' t) = original_priority (threads k t)"
    and "donators (threads k' t) = donators (threads k t)"
    and "waiting_lock (threads k' t) = waiting_lock (threads k t)"
    and "wakeup_tick (threads k' t) = wakeup_tick (threads k t)"
proof -
  from assms have e: "(threads k' t)\<lparr>status := THREAD_READY\<rparr> = (threads k t)\<lparr>status := THREAD_READY\<rparr>"
    by (simp add: sched_only_def)
  from arg_cong[OF e, of priority] show "priority (threads k' t) = priority (threads k t)" by simp
  from arg_cong[OF e, of original_priority]
  show "original_priority (threads k' t) = original_priority (threads k t)" by simp
  from arg_cong[OF e, of donators] show "donators (threads k' t) = donators (threads k t)" by simp
  from arg_cong[OF e, of waiting_lock]
  show "waiting_lock (threads k' t) = waiting_lock (threads k t)" by simp
  from arg_cong[OF e, of wakeup_tick] show "wakeup_tick (threads k' t) = wakeup_tick (threads k t)" by simp
qed

lemma sched_only_get_sema: "sched_only k k' \<Longrightarrow> get_sema k' p = get_sema k p"
  by (cases p) (simp_all add: sched_only_def get_sema_def)

lemma intr_simps [simp]:
  "intr_get_level k = intr_lvl k"
  "intr_context k = in_external_intr k"
  by (simp_all add: intr_get_level_def intr_context_def)

lemma sched_only_intr [simp]:
  "sched_only k (intr_disable k)" "sched_only k (intr_set_level l k)"
  by (simp_all add: sched_only_def intr_disable_def intr_set_level_def)

lemma sched_only_status [simp]: "sched_only k (upd_thread t (\<lambda>th. th\<lparr>status := s\<rparr>) k)"
  by (simp add: sched_only_def)

lemma thread_current_Inr: "thread_current k = Inr t \<longleftrightarrow>
    t = running k \<and> status (threads k (running k)) = THREAD_RUNNING"
  by (auto simp: thread_current_def)

lemma schedule_sched_only: "schedule k = Inr k' \<Longrightarrow> sched_only k k'"
  by (auto simp: schedule_def next_thread_to_run_def Let_def sched_only_def
           split: list.splits option.splits if_splits)

lemma do_schedule_sched_only: "do_schedule st k = Inr k' \<Longrightarrow> sched_only k k'"
  unfolding do_schedule_def Let_def
  by (auto simp: bindE_Inr_iff split: if_splits dest!: schedule_sched_only)
     (simp add: sched_only_def)

lemma thread_block_sched_only: "thread_block k = Inr k' \<Longrightarrow> sched_only k k'"
  unfolding thread_block_def
  by (auto simp: bindE_Inr_iff split: if_splits dest!: schedule_sched_only)
     (simp add: sched_only_def)

lemma thread_unblock_sched_only: "thread_unblock t k = Inr k' \<Longrightarrow> sched_only k k'"
  by (auto simp: thread_unblock_def Let_def sched_only_def intr_disable_def intr_set_level_def
           split: if_splits)

lemma thread_yield_sched_only: "thread_yield k = Inr k' \<Longrightarrow> sched_only k k'"
  unfolding thread_yield_def Let_def
  by (auto simp: bindE_Inr_iff split: if_splits dest!: do_schedule_sched_only)
     (simp_all add: sched_only_def intr_disable_def intr_set_level_def)

lemma preemption_sched_only: "preemption_by_priority k = Inr k' \<Longrightarrow> sched_only k k'"
  unfolding preemption_by_priority_def
  by (auto simp: bindE_Inr_iff split: list.splits if_splits dest: thread_yield_sched_only)

lemma thr_frame_refl [simp]: "thr_frame k k"
  by (simp add: thr_frame_def)

lemma thr_frame_trans: "thr_frame k k1 \<Longrightarrow> thr_frame k1 k2 \<Longrightarrow> thr_frame k k2"
  by (simp add: thr_frame_def)

lemma sched_only_thr_frame: "sched_only k k' \<Longrightarrow> thr_frame k k'"
  by (simp add: sched_only_def thr_frame_def)

lemma thr_frame_priority: "thr_frame k k' \<Longrightarrow> priority (threads k' t) = priority (threads k t)"
proof -
  assume "thr_frame k k'"
  then have "(threads k' t)\<lparr>status := THREAD_READY\<rparr> = (threads k t)\<lparr>status := THREAD_READY\<rparr>"
    by (simp add: thr_frame_def)
  from arg_cong[OF this, of priority] show ?thesis by simp
qed

lemma put_sema_simps [simp]:
  "threads (put_sema p s k) = threads k"
  "conds (put_sema p s k) = conds k"
  "running (put_sema p s k) = running k"
  "ready_list (put_sema p s k) = ready_list k"
  "sleep_list (put_sema p s k) = sleep_list k"
  "destruction_req (put_sema p s k) = destruction_req k"
  "idle_thread (put_sema p s k) = idle_thread k"
  "initial_thread (put_sema p s k) = initial_thread k"
  "thread_ticks (put_sema p s k) = thread_ticks k"
  "ticks (put_sema p s k) = ticks k"
  "intr_lvl (put_sema p s k) = intr_lvl k"
  "in_external_intr (put_sema p s k) = in_external_intr k"
  "yield_on_return (put_sema p s k) = yield_on_return k"
  "holder (locks (put_sema p s k) l) = holder (locks k l)"
  "get_sema (put_sema p s k) p = s"
  by (cases p; simp add: put_sema_def get_sema_def)+

lemma get_put_sema_other [simp]: "q \<noteq> p \<Longrightarrow> get_sema (put_sema p s k) q = get_sema k q"
  by (cases p; cases q; simp add: put_sema_def get_sema_def)

lemma get_sema_upd_thread [simp]: "get_sema (upd_thread t f k) p = get_sema k p"
  by (cases p) (simp_all add: get_sema_def)

lemma thr_frame_put_sema [simp]: "thr_frame k (put_sema p s k)"
  by (simp add: thr_frame_def)

lemma thr_frame_intr [simp]:
  "thr_frame k (intr_disable k)" "thr_frame k (intr_set_level l k)"
  by (simp_all add: thr_frame_def intr_disable_def intr_set_level_def)

lemma sema_down_loop_thr_frame: "sema_down_loop p old k = Inr (b, k') \<Longrightarrow> thr_frame k k'"
  unfolding sema_down_loop_def Let_def
  by (auto simp: bindE_Inr_iff split: if_splits
           dest!: thread_block_sched_only sched_only_thr_frame)
     (auto simp: thr_frame_def intr_set_level_def)

lemma sema_down_thr_frame: "sema_down p k = Inr (b, k') \<Longrightarrow> thr_frame k k'"
  unfolding sema_down_def
  by (auto split: if_splits dest!: sema_down_loop_thr_frame)
     (auto simp: thr_frame_def intr_disable_def)

lemma lock_acquire_take_priority:
  "lock_acquire_take l k = Inr k' \<Longrightarrow> priority (threads k' t) = priority (threads k t)"
  by (auto simp: lock_acquire_take_def Let_def bindE_Inr_iff thread_current_Inr)

lemma lock_acquire_donate_chain:
  assumes ok: "lock_acquire_donate l k = Inr k1"
      and h: "holder (locks k l) = Some h"
      and ch: "holder_chain k (h # hs)" and di: "distinct (h # hs)"
      and cur: "running k \<notin> set (h # hs)" and i: "i < length (h # hs)"
  shows "priority (threads k1 ((h # hs) ! i)) =
           (if i < MAX_DEPTH
            then max (priority (threads k ((h # hs) ! i))) (priority (threads k (running k)))
            else priority (threads k ((h # hs) ! i)))"
proof -
  let ?c = "running k"
  let ?ka = "upd_thread ?c (\<lambda>t. t\<lparr>waiting_lock := Some l\<rparr>) k"
  let ?kb = "upd_thread h (\<lambda>t. t\<lparr>donators :=
               list_insert_ordered (compare_donation_priority ?ka) ?c (donators t)\<rparr>) ?ka"
  from ok h have k1: "k1 = donate_priority_loop ?c (Some h) 0 ?kb"
    by (auto simp: lock_acquire_donate_def Let_def bindE_Inr_iff thread_current_Inr
                   donate_priority_def)
  have chb: "holder_chain ?kb (h # hs)"
    using ch cur by (subst holder_chain_cong[of _ _ k]) auto
  have pr: "priority (threads ?kb t) = priority (threads k t)" for t
    by simp
  from donate_loop_chain[OF chb di cur i, of 0] show ?thesis
    unfolding k1 pr by simp
qed

lemma donate_loop_only_threads:
  "donate_priority_loop c hp d k = k\<lparr>threads := threads (donate_priority_loop c hp d k)\<rparr>"
proof (induction "MAX_DEPTH - d" arbitrary: d hp k)
  case 0
  then show ?case by simp
next
  case (Suc n)
  then have d: "d < MAX_DEPTH" and n: "n = MAX_DEPTH - Suc d" by simp_all
  have r: "raise_to c h k = k\<lparr>threads := threads (raise_to c h k)\<rparr>" for h
    by (simp add: raise_to_def upd_thread_def)
  show ?case
  proof (cases hp)
    case None
    then show ?thesis by simp
  next
    case (Some h)
    show ?thesis
    proof (cases "waiting_lock (threads k h)")
      case None
      with Some d r[of h] show ?thesis by (simp add: donate_loop_Some)
    next
      case (Some l)
      let ?r = "donate_priority_loop c (holder (locks k l)) (Suc d) (raise_to c h k)"
      have "?r = (raise_to c h k)\<lparr>threads := threads ?r\<rparr>"
        by (rule Suc.hyps(1)[OF n])
      also have "\<dots> = k\<lparr>threads := threads ?r\<rparr>"
        by (subst r) simp
      finally show ?thesis using \<open>hp = Some h\<close> Some d by (simp add: donate_loop_Some)
    qed
  qed
qed

lemma donate_loop_status [simp]:
  "status (threads (donate_priority_loop c hp d k) t) = status (threads k t)"
proof (induction "MAX_DEPTH - d" arbitrary: d hp k)
  case 0
  then show ?case by simp
next
  case (Suc n)
  then have d: "d < MAX_DEPTH" and n: "n = MAX_DEPTH - Suc d" by simp_all
  have r: "status (threads (raise_to c h k) t) = status (threads k t)" for h
    by (simp add: raise_to_def)
  show ?case
  proof (cases hp)
    case None
    then show ?thesis by simp
  next
    case (Some h)
    then show ?thesis
      using d r[of h] Suc.hyps(1)[OF n, of _ "raise_to c h k"]
      by (simp add: donate_loop_Some split: option.splits)
  qed
qed

lemma donate_loop_fields [simp]:
  "running (donate_priority_loop c hp d k) = running k"
  "ready_list (donate_priority_loop c hp d k) = ready_list k"
  "idle_thread (donate_priority_loop c hp d k) = idle_thread k"
  "intr_lvl (donate_priority_loop c hp d k) = intr_lvl k"
  "in_external_intr (donate_priority_loop c hp d k) = in_external_intr k"
  "get_sema (donate_priority_loop c hp d k) p = get_sema k p"
  by (subst donate_loop_only_threads, simp add: get_sema_def split: sema_ptr.splits)+

lemma next_thread_exists_cong:
  "ready_list k' = ready_list k \<Longrightarrow> idle_thread k' = idle_thread k \<Longrightarrow>
   next_thread_exists k' = next_thread_exists k"
  by (simp add: next_thread_exists_def next_thread_to_run_def split: list.splits)

lemma schedule_returns:
  "intr_lvl k = INTR_OFF \<Longrightarrow> status (threads k (running k)) \<noteq> THREAD_RUNNING \<Longrightarrow>
   next_thread_exists k \<Longrightarrow> \<exists>k'. schedule k = Inr k'"
  by (auto simp: schedule_def next_thread_exists_def next_thread_to_run_def Let_def
           split: list.splits option.splits)

lemma thread_block_returns:
  assumes "\<not> in_external_intr k" "intr_lvl k = INTR_OFF"
      and "status (threads k (running k)) = THREAD_RUNNING" "next_thread_exists k"
  shows "\<exists>k'. thread_block k = Inr k'"
proof -
  let ?k1 = "upd_thread (running k) (\<lambda>t. t\<lparr>status := THREAD_BLOCKED\<rparr>) k"
  have "next_thread_exists ?k1"
    using assms(4) by (subst next_thread_exists_cong[of _ k]) simp_all
  then have "\<exists>k'. schedule ?k1 = Inr k'"
    using assms by (intro schedule_returns) simp_all
  then show ?thesis
    using assms by (simp add: thread_block_def thread_current_def)
qed

lemma sema_down_parks:
  assumes "\<not> in_external_intr k" "status (threads k (running k)) = THREAD_RUNNING"
      and "next_thread_exists k" "sem_value (get_sema k p) = 0"
  shows "\<exists>k'. sema_down p k = Inr (False, k')"
proof -
  let ?k0 = "intr_disable k"
  let ?k1 = "put_sema p ((get_sema ?k0 p)\<lparr>waiters :=
      list_insert_ordered (compare_ready_priority ?k0) (running k) (waiters (get_sema ?k0 p))\<rparr>) ?k0"
  have "next_thread_exists ?k1"
    using assms(3) by (subst next_thread_exists_cong[of _ k]) (simp_all add: intr_disable_def)
  then have "\<exists>k'. thread_block ?k1 = Inr k'"
    using assms by (intro thread_block_returns) (simp_all add: intr_disable_def)
  then obtain k' where "thread_block ?k1 = Inr k'" ..
  moreover have "get_sema ?k0 p = get_sema k p"
    by (simp add: get_sema_def intr_disable_def split: sema_ptr.splits)
  ultimately show ?thesis
    using assms by (simp add: sema_down_def sema_down_loop_def thread_current_def Let_def
        intr_disable_def)
qed

lemma lock_acquire_donate_fields:
  assumes "lock_acquire_donate l k = Inr k1"
  shows "running k1 = running k" "in_external_intr k1 = in_external_intr k"
    "ready_list k1 = ready_list k" "idle_thread k1 = idle_thread k"
    "status (threads k1 t) = status (threads k t)"
    "get_sema k1 p = get_sema k p"
proof -
  have "status (threads k1 t) = status (threads k t) \<and> running k1 = running k \<and>
        in_external_intr k1 = in_external_intr k \<and> ready_list k1 = ready_list k \<and>
        idle_thread k1 = idle_thread k \<and> get_sema k1 p = get_sema k p"
  proof (cases "holder (locks k l)")
    case None
    with assms show ?thesis by (simp add: lock_acquire_donate_def)
  next
    case (Some h)
    with assms show ?thesis
      by (cases p)
         (auto simp: lock_acquire_donate_def Let_def bindE_Inr_iff thread_current_Inr
             donate_priority_def split: if_splits)
  qed
  then show "running k1 = running k" "in_external_intr k1 = in_external_intr k"
    "ready_list k1 = ready_list k" "idle_thread k1 = idle_thread k"
    "status (threads k1 t) = status (threads k t)"
    "get_sema k1 p = get_sema k p"
    by simp_all
qed

lemma lock_acquire_donate_returns:
  "status (threads k (running k)) = THREAD_RUNNING \<Longrightarrow> \<exists>k1. lock_acquire_donate l k = Inr k1"
  by (simp add: lock_acquire_donate_def Let_def thread_current_def donate_priority_def
      split: option.splits)

lemma lock_acquire_parks:
  assumes "\<not> in_external_intr k" "status (threads k (running k)) = THREAD_RUNNING"
      and "next_thread_exists k"
      and "sem_value (semaphore (locks k l)) = 0"
      and "holder (locks k l) \<noteq> Some (running k)"
  shows "\<exists>k'. lock_acquire l k = Inr (False, k')"
proof -
  from lock_acquire_donate_returns[OF assms(2)]
  obtain k1 where d: "lock_acquire_donate l k = Inr k1" ..
  note f = lock_acquire_donate_fields[OF d]
  have n: "next_thread_exists k1"
    using assms(3) by (subst next_thread_exists_cong[of _ k]) (simp_all add: f)
  have v: "sem_value (get_sema k1 (LOCK_SEMA l)) = 0"
    using assms(4) by (simp add: f) (simp add: get_sema_def)
  have "\<exists>k'. sema_down (LOCK_SEMA l) k1 = Inr (False, k')"
    using assms(1,2) n v by (intro sema_down_parks) (simp_all add: f)
  then obtain k' where "sema_down (LOCK_SEMA l) k1 = Inr (False, k')" ..
  with d assms show ?thesis
    by (simp add: lock_acquire_def lock_held_by_current_thread_def thread_current_def)
qed

lemma chain_demo_runs: "\<exists>k'. lock_acquire 0 chain_demo = Inr (False, k')"
proof (rule lock_acquire_parks)
  show "next_thread_exists chain_demo"
    unfolding next_thread_exists_def next_thread_to_run_def by (simp add: chain_demo_def)
qed (simp_all add: chain_demo_def)

lemmas kernel_defs =
  bindE_def get_sema_def put_sema_def upd_thread_def intr_get_level_def intr_disable_def
  intr_set_level_def intr_context_def intr_yield_on_return_def list_sort_def
  thread_current_def compare_ready_priority_def compare_donation_priority_def
  next_thread_to_run_def schedule_def do_schedule_def thread_block_def thread_unblock_def
  thread_yield_def preemption_by_priority_def thread_tick_def recaculate_priority_def
  thread_set_priority_def thread_get_priority_def sema_init_def sema_down_loop_def
  sema_down_def sema_try_down_def sema_up_wake_def sema_up_def compare_sema_priority_def
  lock_init_def lock_held_by_current_thread_def donate_priority_def lock_acquire_donate_def
  lock_acquire_take_def lock_acquire_def lock_try_acquire_def remove_donations_def
  lock_release_def cond_init_def cond_wait_insert_def cond_wait_def cond_signal_def
  compare_tick_def timer_ticks_def timer_sleep_def timer_interrupt_def
  front_priority_def compare_sema_priority_raw_def signal_resume_def cond_broadcast_def

lemma list_sort_onto_append:
  "list_sort_onto lt acc (xs @ ys) = list_sort_onto lt (list_sort_onto lt acc xs) ys"
  by (induction xs arbitrary: acc) simp_all

lemma set_list_insert_ordered [simp]: "set (list_insert_ordered lt x xs) = insert x (set xs)"
  by (induction xs) auto

lemma length_list_insert_ordered [simp]: "length (list_insert_ordered lt x xs) = Suc (length xs)"
  by (induction xs) auto

lemma set_list_sort_onto [simp]: "set (list_sort_onto lt acc xs) = set acc \<union> set xs"
  by (induction xs arbitrary: acc) auto

lemma length_list_sort_onto [simp]: "length (list_sort_onto lt acc xs) = length acc + length xs"
  by (induction xs arbitrary: acc) auto

lemma set_list_sort [simp]: "set (list_sort lt xs) = set xs"
  by (simp add: list_sort_def)

lemma length_list_sort [simp]: "length (list_sort lt xs) = length xs"
  by (simp add: list_sort_def)

lemma list_sort_Nil_iff [simp]: "list_sort lt xs = [] \<longleftrightarrow> xs = []"
  by (metis length_0_conv length_list_sort)

text \<open>With a comparator \<open>key a > key b\<close>: where the new entry goes.\<close>

lemma list_insert_ordered_key:
  "list_insert_ordered (\<lambda>a b. key a > (key b :: int)) x xs =
     takeWhile (\<lambda>e. key e \<ge> key x) xs @ x # dropWhile (\<lambda>e. key e \<ge> key x) xs"
  by (induction xs) auto

lemma sorted_list_insert_ordered:
  "sorted_wrt (\<lambda>a b. key a \<ge> (key b :: int)) xs \<Longrightarrow>
   sorted_wrt (\<lambda>a b. key a \<ge> key b) (list_insert_ordered (\<lambda>a b. key a > key b) x xs)"
  by (induction xs) auto

lemma sorted_list_sort_onto:
  "sorted_wrt (\<lambda>a b. key a \<ge> (key b :: int)) acc \<Longrightarrow>
   sorted_wrt (\<lambda>a b. key a \<ge> key b) (list_sort_onto (\<lambda>a b. key a > key b) acc xs)"
  by (induction xs arbitrary: acc) (simp_all add: sorted_list_insert_ordered)

lemma sorted_list_sort:
  "sorted_wrt (\<lambda>a b. key a \<ge> (key b :: int)) (list_sort (\<lambda>a b. key a > key b) xs)"
  by (simp add: list_sort_def sorted_list_sort_onto)

lemma list_insert_ordered_above:
  "\<forall>e \<in> set acc. key e < (key t :: int) \<Longrightarrow>
   list_insert_ordered (\<lambda>a b. key a > key b) t acc = t # acc"
  by (cases acc) auto

lemma list_sort_onto_below:
  "\<forall>x \<in> set xs. key x \<le> (key t :: int) \<Longrightarrow>
   list_sort_onto (\<lambda>a b. key a > key b) (t # acc) xs =
   t # list_sort_onto (\<lambda>a b. key a > key b) acc xs"
  by (induction xs arbitrary: acc) auto

lemma list_sort_first_highest:
  assumes "\<forall>x \<in> set pre. key x < (key t :: int)" "\<forall>x \<in> set post. key x \<le> key t"
  shows "list_sort (\<lambda>a b. key a > key b) (pre @ t # post) =
         t # list_sort (\<lambda>a b. key a > key b) (pre @ post)"
proof -
  let ?lt = "\<lambda>a b. key a > key b"
  have "list_sort ?lt (pre @ t # post) =
        list_sort_onto ?lt (list_insert_ordered ?lt t (list_sort_onto ?lt [] pre)) post"
    by (simp add: list_sort_def list_sort_onto_append)
  also have "list_insert_ordered ?lt t (list_sort_onto ?lt [] pre) = t # list_sort_onto ?lt [] pre"
    using assms(1) by (intro list_insert_ordered_above) simp
  also have "list_sort_onto ?lt (t # list_sort_onto ?lt [] pre) post =
             t # list_sort_onto ?lt (list_sort_onto ?lt [] pre) post"
    using assms(2) by (rule list_sort_onto_below)
  finally show ?thesis by (simp add: list_sort_def list_sort_onto_append)
qed

lemma first_highest_exists:
  "ws \<noteq> [] \<Longrightarrow> \<exists>pre t post. ws = pre @ t # post \<and>
     (\<forall>x \<in> set pre. key x < (key t :: int)) \<and> (\<forall>x \<in> set post. key x \<le> key t)"
proof (induction ws)
  case Nil
  then show ?case by simp
next
  case (Cons x ws)
  show ?case
  proof (cases "ws = []")
    case True
    then have "x # ws = [] @ x # []" by simp
    then show ?thesis by (metis empty_iff list.set(1))
  next
    case False
    from Cons.IH[OF this] obtain pre t post where d: "ws = pre @ t # post"
      and lo: "\<forall>x \<in> set pre. key x < key t" and hi: "\<forall>x \<in> set post. key x \<le> key t"
      by blast
    show ?thesis
    proof (cases "key x < key t")
      case True
      have "x # ws = (x # pre) @ t # post" using d by simp
      moreover have "\<forall>y \<in> set (x # pre). key y < key t" using True lo by simp
      ultimately show ?thesis using hi by blast
    next
      case False
      have "x # ws = [] @ x # ws" by simp
      moreover have "\<forall>y \<in> set ws. key y \<le> key x" using False lo hi d by force
      ultimately show ?thesis by (metis empty_iff list.set(1))
    qed
  qed
qed

lemma compare_ready_priority_key:
  "compare_ready_priority k = (\<lambda>a b. priority (threads k a) > priority (threads k b))"
  by (intro ext) (simp add: compare_ready_priority_def)

lemma compare_ready_priority_cong:
  "threads k' = threads k \<Longrightarrow> compare_ready_priority k' = compare_ready_priority k"
  by (simp add: compare_ready_priority_key)

lemma compare_ready_priority_status [simp]:
  "compare_ready_priority (upd_thread t (\<lambda>th. th\<lparr>status := s\<rparr>) k) = compare_ready_priority k"
  by (intro ext) (simp add: compare_ready_priority_def)

lemma compare_ready_priority_intr [simp]:
  "compare_ready_priority (intr_disable k) = compare_ready_priority k"
  "compare_ready_priority (intr_set_level l k) = compare_ready_priority k"
  "compare_ready_priority (put_sema p s k) = compare_ready_priority k"
  by (intro ext, simp add: compare_ready_priority_def intr_disable_def intr_set_level_def)+

lemma intr_fields [simp]:
  "threads (intr_disable k) = threads k" "threads (intr_set_level l k) = threads k"
  "get_sema (intr_disable k) p = get_sema k p" "get_sema (intr_set_level l k) p = get_sema k p"
  "running (intr_disable k) = running k" "running (intr_set_level l k) = running k"
  "ready_list (intr_disable k) = ready_list k" "ready_list (intr_set_level l k) = ready_list k"
  "sleep_list (intr_disable k) = sleep_list k" "sleep_list (intr_set_level l k) = sleep_list k"
  "conds (intr_disable k) = conds k" "conds (intr_set_level l k) = conds k"
  "locks (intr_disable k) = locks k" "locks (intr_set_level l k) = locks k"
  "idle_thread (intr_disable k) = idle_thread k" "idle_thread (intr_set_level l k) = idle_thread k"
  "ticks (intr_disable k) = ticks k" "ticks (intr_set_level l k) = ticks k"
  "in_external_intr (intr_disable k) = in_external_intr k"
  "in_external_intr (intr_set_level l k) = in_external_intr k"
  "intr_lvl (intr_disable k) = INTR_OFF" "intr_lvl (intr_set_level l k) = l"
  by (simp_all add: intr_disable_def intr_set_level_def get_sema_def split: sema_ptr.splits)

lemma schedule_not_blocked:
  "schedule k = Inr k' \<Longrightarrow> not_blocked k t \<Longrightarrow> not_blocked k' t"
  by (auto simp: schedule_def next_thread_to_run_def Let_def not_blocked_def
           split: list.splits option.splits if_splits)

lemma do_schedule_not_blocked:
  assumes "do_schedule st k = Inr k'" "st \<noteq> THREAD_BLOCKED" "not_blocked k t"
  shows "not_blocked k' t"
proof -
  from assms(1) obtain cur where
    s: "schedule (upd_thread cur (\<lambda>t. t\<lparr>status := st\<rparr>) (k\<lparr>destruction_req := []\<rparr>)) = Inr k'"
    by (auto simp: do_schedule_def Let_def bindE_Inr_iff split: if_splits)
  have "not_blocked (upd_thread cur (\<lambda>t. t\<lparr>status := st\<rparr>) (k\<lparr>destruction_req := []\<rparr>)) t"
    using assms(2,3) by (simp add: not_blocked_def)
  with s show ?thesis by (rule schedule_not_blocked)
qed

lemma thread_yield_not_blocked:
  assumes "thread_yield k = Inr k'" "not_blocked k t"
  shows "not_blocked k' t"
proof -
  from assms(1) obtain k2 k3 where d: "do_schedule THREAD_READY k2 = Inr k3"
    and k2: "threads k2 = threads k" and k': "threads k' = threads k3"
    by (auto simp: thread_yield_def Let_def bindE_Inr_iff split: if_splits)
  have "not_blocked k2 t" using assms(2) k2 by (simp add: not_blocked_def)
  from do_schedule_not_blocked[OF d _ this] k' show ?thesis by (simp add: not_blocked_def)
qed

lemma preemption_not_blocked:
  "preemption_by_priority k = Inr k' \<Longrightarrow> not_blocked k t \<Longrightarrow> not_blocked k' t"
  unfolding preemption_by_priority_def
  by (auto simp: bindE_Inr_iff split: list.splits if_splits dest: thread_yield_not_blocked)

lemma thread_unblock_effect:
  assumes "thread_unblock t k = Inr k'"
  shows "status (threads k t) = THREAD_BLOCKED" "status (threads k' t) = THREAD_READY"
    "ready_list k' = list_insert_ordered (compare_ready_priority k) t (ready_list k)"
    "intr_lvl k' = intr_lvl k" "running k' = running k"
    "x \<noteq> t \<Longrightarrow> threads k' x = threads k x"
  using assms
  by (auto simp: thread_unblock_def Let_def split: if_splits)

lemma sema_up_effect:
  assumes up: "sema_up p k = Inr k'" and ws: "waiters (get_sema k p) \<noteq> []"
  shows "status (threads k (hd (list_sort (compare_ready_priority k) (waiters (get_sema k p)))))
           = THREAD_BLOCKED"
    and "not_blocked k' (hd (list_sort (compare_ready_priority k) (waiters (get_sema k p))))"
    and "get_sema k' p = \<lparr>sem_value = sem_value (get_sema k p) + 1,
           waiters = tl (list_sort (compare_ready_priority k) (waiters (get_sema k p)))\<rparr>"
proof -
  let ?s = "get_sema k p"
  let ?sorted = "list_sort (compare_ready_priority k) (waiters ?s)"
  let ?k1 = "put_sema p (?s\<lparr>waiters := tl ?sorted\<rparr>) (intr_disable k)"
  have cmp: "compare_ready_priority (intr_disable k) = compare_ready_priority k"
    by simp
  from up ws obtain k2 k4 where
    u: "thread_unblock (hd ?sorted) ?k1 = Inr k2" and
    pr: "preemption_by_priority
           (put_sema p ((get_sema k2 p)\<lparr>sem_value := sem_value (get_sema k2 p) + 1\<rparr>) k2) = Inr k4" and
    k': "k' = k4 \<or> k' = intr_set_level (intr_lvl k) k4"
    by (auto simp: sema_up_def sema_up_wake_def Let_def bindE_Inr_iff cmp split: if_splits)
  note e = thread_unblock_effect[OF u]
  from e(1) show "status (threads k (hd ?sorted)) = THREAD_BLOCKED" by simp
  let ?k3 = "put_sema p ((get_sema k2 p)\<lparr>sem_value := sem_value (get_sema k2 p) + 1\<rparr>) k2"
  have "not_blocked ?k3 (hd ?sorted)" using e(2) by (simp add: not_blocked_def)
  from preemption_not_blocked[OF pr this] k'
  show "not_blocked k' (hd ?sorted)" by (auto simp: not_blocked_def)
  have g2: "get_sema k2 p = ?s\<lparr>waiters := tl ?sorted\<rparr>"
    using sched_only_get_sema[OF thread_unblock_sched_only[OF u], of p] by simp
  have "get_sema k4 p = get_sema ?k3 p"
    using sched_only_get_sema[OF preemption_sched_only[OF pr]] .
  with g2 k' show "get_sema k' p = \<lparr>sem_value = sem_value ?s + 1, waiters = tl ?sorted\<rparr>"
    by auto
qed



lemma sema_up_wake_thr_frame: "sema_up_wake p k = Inr k' \<Longrightarrow> thr_frame k k'"
  unfolding sema_up_wake_def Let_def
  by (auto split: if_splits dest!: thread_unblock_sched_only sched_only_thr_frame)
     (simp add: thr_frame_def)

lemma sema_up_thr_frame:
  assumes "sema_up p k = Inr k'"
  shows "thr_frame k k'"
proof -
  from assms obtain k2 k4 where w: "sema_up_wake p (intr_disable k) = Inr k2"
    and pr: "preemption_by_priority
           (put_sema p ((get_sema k2 p)\<lparr>sem_value := sem_value (get_sema k2 p) + 1\<rparr>) k2) = Inr k4"
    and k': "threads k' = threads k4"
    by (auto simp: sema_up_def Let_def bindE_Inr_iff split: if_splits)
  have "thr_frame k k2"
    using sema_up_wake_thr_frame[OF w] by (simp add: thr_frame_def)
  moreover have "thr_frame k2 k4"
    using sched_only_thr_frame[OF preemption_sched_only[OF pr]] by (simp add: thr_frame_def)
  ultimately show ?thesis using k' by (simp add: thr_frame_def)
qed






lemma waiters_sorted_frame:
  assumes "thr_frame k k'"
  shows "waiters_sorted k' p =
         sorted_wrt (\<lambda>a b. priority (threads k a) \<ge> priority (threads k b)) (waiters (get_sema k' p))"
  by (simp add: waiters_sorted_def thr_frame_priority[OF assms])

lemma sema_down_loop_effect:
  assumes "sema_down_loop p old k = Inr (taken, k')"
  shows "thr_frame k k'"
    and "get_sema k' p =
           (if sem_value (get_sema k p) = 0
            then (get_sema k p)\<lparr>waiters := list_insert_ordered (compare_ready_priority k)
                                    (running k) (waiters (get_sema k p))\<rparr>
            else (get_sema k p)\<lparr>sem_value := sem_value (get_sema k p) - 1\<rparr>)"
    and "taken = (sem_value (get_sema k p) \<noteq> 0)"
proof -
  show "thr_frame k k'" using assms by (rule sema_down_loop_thr_frame)
  show "taken = (sem_value (get_sema k p) \<noteq> 0)"
    using assms by (auto simp: sema_down_loop_def Let_def bindE_Inr_iff split: if_splits)
  show "get_sema k' p =
           (if sem_value (get_sema k p) = 0
            then (get_sema k p)\<lparr>waiters := list_insert_ordered (compare_ready_priority k)
                                    (running k) (waiters (get_sema k p))\<rparr>
            else (get_sema k p)\<lparr>sem_value := sem_value (get_sema k p) - 1\<rparr>)"
  proof (cases "sem_value (get_sema k p) = 0")
    case True
    with assms obtain k1 where b: "thread_block k1 = Inr k'"
      and k1: "k1 = put_sema p ((get_sema k p)\<lparr>waiters :=
                 list_insert_ordered (compare_ready_priority k) (running k)
                   (waiters (get_sema k p))\<rparr>) k"
      by (auto simp: sema_down_loop_def Let_def bindE_Inr_iff thread_current_Inr)
    from sched_only_get_sema[OF thread_block_sched_only[OF b], of p] k1 True
    show ?thesis by simp
  next
    case False
    with assms show ?thesis by (auto simp: sema_down_loop_def Let_def)
  qed
qed

lemma sema_down_effect:
  assumes "sema_down p k = Inr (taken, k')"
  shows "thr_frame k k'"
    and "get_sema k' p =
           (if sem_value (get_sema k p) = 0
            then (get_sema k p)\<lparr>waiters := list_insert_ordered (compare_ready_priority k)
                                    (running k) (waiters (get_sema k p))\<rparr>
            else (get_sema k p)\<lparr>sem_value := sem_value (get_sema k p) - 1\<rparr>)"
proof -
  from assms have l: "sema_down_loop p (intr_lvl k) (intr_disable k) = Inr (taken, k')"
    by (auto simp: sema_down_def split: if_splits)
  show "thr_frame k k'" using assms by (rule sema_down_thr_frame)
  from sema_down_loop_effect(2)[OF l]
  show "get_sema k' p =
           (if sem_value (get_sema k p) = 0
            then (get_sema k p)\<lparr>waiters := list_insert_ordered (compare_ready_priority k)
                                    (running k) (waiters (get_sema k p))\<rparr>
            else (get_sema k p)\<lparr>sem_value := sem_value (get_sema k p) - 1\<rparr>)"
    by simp
qed

lemma sema_try_down_effect:
  assumes "sema_try_down p k = (taken, k')"
  shows "thr_frame k k'"
    and "get_sema k' p =
           (if sem_value (get_sema k p) > 0
            then (get_sema k p)\<lparr>sem_value := sem_value (get_sema k p) - 1\<rparr>
            else get_sema k p)"
  using assms by (auto simp: sema_try_down_def Let_def thr_frame_def split: if_splits)

lemma sema_up_effect_empty:
  assumes "sema_up p k = Inr k'" and "waiters (get_sema k p) = []"
  shows "get_sema k' p = (get_sema k p)\<lparr>sem_value := sem_value (get_sema k p) + 1\<rparr>"
proof -
  from assms obtain k4 where
    pr: "preemption_by_priority
           (put_sema p ((get_sema k p)\<lparr>sem_value := sem_value (get_sema k p) + 1\<rparr>)
             (intr_disable k)) = Inr k4"
    and k': "k' = k4 \<or> k' = intr_set_level (intr_lvl k) k4"
    by (auto simp: sema_up_def sema_up_wake_def Let_def bindE_Inr_iff split: if_splits)
  from sched_only_get_sema[OF preemption_sched_only[OF pr], of p] k'
  show ?thesis by auto
qed

lemma sorted_wrt_tl: "sorted_wrt P xs \<Longrightarrow> sorted_wrt P (tl xs)"
  by (cases xs) simp_all

lemma unat_minus_one_word: "(v :: 32 word) \<noteq> 0 \<Longrightarrow> unat (v - 1) = unat v - 1"
  by (simp add: unat_minus_one)

lemma unat_plus_one_le: "unat ((v :: 32 word) + 1) \<le> unat v + 1"
  by (simp add: unat_word_ariths)

lemma sema_up_sorts:
  assumes "sema_up p k = Inr k'"
  shows "waiters_sorted k' p"
proof (cases "waiters (get_sema k p) = []")
  case True
  from sema_up_effect_empty[OF assms True] True show ?thesis
    by (simp add: waiters_sorted_def)
next
  case False
  note f = sema_up_thr_frame[OF assms] and e = sema_up_effect[OF assms False]
  have "sorted_wrt (\<lambda>a b. priority (threads k a) \<ge> priority (threads k b))
          (list_sort (compare_ready_priority k) (waiters (get_sema k p)))"
    unfolding compare_ready_priority_key by (rule sorted_list_sort)
  then have "sorted_wrt (\<lambda>a b. priority (threads k a) \<ge> priority (threads k b))
          (tl (list_sort (compare_ready_priority k) (waiters (get_sema k p))))"
    by (rule sorted_wrt_tl)
  with e(3) show ?thesis unfolding waiters_sorted_frame[OF f] by simp
qed

lemma donor_demo_eval:
  "bindE (do_calls (take 3 donate_sema_trace) (sema_init (SEMA 0) 0 donor_demo)) (\<lambda>k1.
     bindE (sema_down (SEMA 0) k1) (\<lambda>(b2, k2).
       bindE (do_calls (take 3 (drop 4 donate_sema_trace)) k2) (\<lambda>k3.
         bindE (sema_down (SEMA 0) k3) (\<lambda>(b4, k4).
           bindE (do_calls (drop 8 donate_sema_trace) k4) (\<lambda>k5.
             bindE (sema_up (SEMA 0) k5) (\<lambda>k6.
               Inr (semas k1 0, semas k2 0, priority (threads k2 1), semas k3 0,
                    priority (threads k3 1), semas k4 0,
                    map (\<lambda>t. priority (threads k4 t)) [2, 1], semas k5 0,
                    map (\<lambda>t. priority (threads k5 t)) [2, 1], semas k6 0, running k6)))))))
   = Inr (\<lparr>sem_value = 0, waiters = []\<rparr>, \<lparr>sem_value = 0, waiters = [1]\<rparr>, 32,
          \<lparr>sem_value = 0, waiters = [1]\<rparr>, 32, \<lparr>sem_value = 0, waiters = [2, 1]\<rparr>, [34, 32],
          \<lparr>sem_value = 0, waiters = [2, 1]\<rparr>, [34, 36], \<lparr>sem_value = 1, waiters = [2]\<rparr>, 1)"
  by (simp add: donate_sema_trace_def donor_demo_def kernel_defs Let_def
      donate_priority_loop.simps)

lemma thread_tick_effect:
  assumes "thread_tick k = Inr k'"
  shows "threads k' = threads k" "sleep_list k' = sleep_list k" "ticks k' = ticks k"
    "thread_ticks k' = thread_ticks k + 1" "ready_list k' = ready_list k"
    "yield_on_return k' = (yield_on_return k \<or> TIME_SLICE \<le> thread_ticks k + 1)"
    "running k' = running k" "intr_lvl k' = intr_lvl k" "idle_thread k' = idle_thread k"
proof -
  define k1 where "k1 = (if Some (running k) = idle_thread k then k\<lparr>idle_ticks := idle_ticks k + 1\<rparr>
                         else k\<lparr>kernel_ticks := kernel_ticks k + 1\<rparr>)"
  define k2 where "k2 = k1\<lparr>thread_ticks := thread_ticks k1 + 1\<rparr>"
  from assms have "(if TIME_SLICE \<le> thread_ticks k2 then Inr (intr_yield_on_return k2) else Inr k2)
                    = (Inr k' :: error + kernel)"
    unfolding thread_tick_def thread_current_def k1_def k2_def Let_def
    by (cases "status (threads k (running k)) = THREAD_RUNNING") simp_all
  then have k': "k' = (if TIME_SLICE \<le> thread_ticks k2 then intr_yield_on_return k2 else k2)"
    by (cases "TIME_SLICE \<le> thread_ticks k2") simp_all
  have f: "threads k2 = threads k" "sleep_list k2 = sleep_list k" "ticks k2 = ticks k"
    "thread_ticks k2 = thread_ticks k + 1" "ready_list k2 = ready_list k"
    "yield_on_return k2 = yield_on_return k"
    "running k2 = running k" "intr_lvl k2 = intr_lvl k" "idle_thread k2 = idle_thread k"
    by (simp_all add: k1_def k2_def)
  show "threads k' = threads k" "sleep_list k' = sleep_list k" "ticks k' = ticks k"
    "thread_ticks k' = thread_ticks k + 1" "ready_list k' = ready_list k"
    "running k' = running k" "intr_lvl k' = intr_lvl k" "idle_thread k' = idle_thread k"
    unfolding k' by (simp_all add: intr_yield_on_return_def f)
  show "yield_on_return k' = (yield_on_return k \<or> TIME_SLICE \<le> thread_ticks k + 1)"
    unfolding k' by (cases "TIME_SLICE \<le> thread_ticks k2")
      (simp_all add: intr_yield_on_return_def f)
qed

lemma thread_tick_returns:
  "status (threads k (running k)) = THREAD_RUNNING \<Longrightarrow> \<exists>k'. thread_tick k = Inr k'"
  by (simp add: thread_tick_def Let_def thread_current_def)

lemma thread_unblock_returns:
  "status (threads k t) = THREAD_BLOCKED \<Longrightarrow> \<exists>k'. thread_unblock t k = Inr k'"
  by (simp add: thread_unblock_def Let_def)

lemma timer_wake_effect:
  assumes "timer_wake es k = Inr k'" and "sleep_list k = es"
  shows "ticks k' = ticks k \<and>
         sleep_list k' = dropWhile (\<lambda>t. wakeup_tick (threads k t) \<le> ticks k) es \<and>
         (\<forall>t \<in> set (takeWhile (\<lambda>t. wakeup_tick (threads k t) \<le> ticks k) es).
            status (threads k t) = THREAD_BLOCKED \<and> status (threads k' t) = THREAD_READY) \<and>
         (\<forall>t. t \<in> set (takeWhile (\<lambda>t. wakeup_tick (threads k t) \<le> ticks k) es) \<or>
              threads k' t = threads k t)"
  using assms
proof (induction es arbitrary: k)
  case Nil
  then show ?case by simp
next
  case (Cons t es)
  show ?case
  proof (cases "wakeup_tick (threads k t) \<le> ticks k")
    case False
    with Cons.prems show ?thesis by simp
  next
    case True
    with Cons.prems(1) obtain k1 where u: "thread_unblock t (k\<lparr>sleep_list := es\<rparr>) = Inr k1"
      and w: "timer_wake es k1 = Inr k'"
      by (auto simp: bindE_Inr_iff)
    note so = thread_unblock_sched_only[OF u]
    note ue = thread_unblock_effect[OF u]
    have sl: "sleep_list k1 = es" and tk: "ticks k1 = ticks k"
      using so by (simp_all add: sched_only_def)
    have wk: "wakeup_tick (threads k1 x) = wakeup_tick (threads k x)" for x
      using sched_only_fields(5)[OF so, of x] by simp
    let ?P = "\<lambda>t. wakeup_tick (threads k t) \<le> ticks k"
    from Cons.IH[OF w sl] have ih:
      "ticks k' = ticks k" "sleep_list k' = dropWhile ?P es"
      "\<forall>x \<in> set (takeWhile ?P es).
          status (threads k1 x) = THREAD_BLOCKED \<and> status (threads k' x) = THREAD_READY"
      "\<forall>x. x \<in> set (takeWhile ?P es) \<or> threads k' x = threads k1 x"
      by (simp_all add: wk tk)
    have st: "status (threads k t) = THREAD_BLOCKED" using ue(1) by simp
    have t': "status (threads k' t) = THREAD_READY"
    proof (cases "t \<in> set (takeWhile ?P es)")
      case True
      with ih(3) show ?thesis by blast
    next
      case False
      with ih(4) have "threads k' t = threads k1 t" by blast
      with ue(2) show ?thesis by simp
    qed
    have oth: "x \<noteq> t \<Longrightarrow> threads k1 x = threads k x" for x
      using ue(6)[of x] by simp
    have a: "status (threads k x) = THREAD_BLOCKED \<and> status (threads k' x) = THREAD_READY"
      if "x \<in> set (takeWhile ?P es)" for x
    proof (cases "x = t")
      case True
      with st t' show ?thesis by simp
    next
      case False
      with ih(3) that oth[of x] show ?thesis by auto
    qed
    have b: "x \<in> set (takeWhile ?P (t # es)) \<or> threads k' x = threads k x" for x
    proof (cases "x = t")
      case True
      with \<open>?P t\<close> show ?thesis by simp
    next
      case False
      with ih(4) oth[of x] \<open>?P t\<close> show ?thesis by auto
    qed
    from a have "\<forall>x \<in> set (takeWhile ?P es).
            status (threads k x) = THREAD_BLOCKED \<and> status (threads k' x) = THREAD_READY"
      by blast
    moreover from b have "\<forall>x. x \<in> set (takeWhile ?P (t # es)) \<or> threads k' x = threads k x"
      by blast
    ultimately show ?thesis using True ih(1,2) st t' by simp
  qed
qed

lemma timer_wake_returns:
  "distinct es \<Longrightarrow> \<forall>t \<in> set es. status (threads k t) = THREAD_BLOCKED \<Longrightarrow>
   \<exists>k'. timer_wake es k = Inr k'"
proof (induction es arbitrary: k)
  case Nil
  then show ?case by simp
next
  case (Cons t es)
  show ?case
  proof (cases "wakeup_tick (threads k t) \<le> ticks k")
    case False
    then show ?thesis by simp
  next
    case True
    have "status (threads (k\<lparr>sleep_list := es\<rparr>) t) = THREAD_BLOCKED"
      using Cons.prems(2) by simp
    from thread_unblock_returns[OF this]
    obtain k1 where u: "thread_unblock t (k\<lparr>sleep_list := es\<rparr>) = Inr k1" ..
    have "status (threads k1 x) = THREAD_BLOCKED" if "x \<in> set es" for x
    proof -
      from that Cons.prems have "x \<noteq> t" "status (threads k x) = THREAD_BLOCKED" by auto
      with thread_unblock_effect(6)[OF u, of x] show ?thesis by simp
    qed
    then have "\<forall>x \<in> set es. status (threads k1 x) = THREAD_BLOCKED" by blast
    with Cons.IH[of k1] Cons.prems(1) obtain k' where "timer_wake es k1 = Inr k'" by auto
    with u True show ?thesis by simp
  qed
qed

lemma timer_interrupt_effect:
  assumes "timer_interrupt k = Inr k'"
  shows "ticks k' = ticks k + 1 \<and> thread_ticks k' = thread_ticks k + 1 \<and>
         yield_on_return k' = (yield_on_return k \<or> TIME_SLICE \<le> thread_ticks k + 1) \<and>
         sleep_list k' = dropWhile (\<lambda>t. wakeup_tick (threads k t) \<le> ticks k + 1) (sleep_list k) \<and>
         (\<forall>t \<in> set (takeWhile (\<lambda>t. wakeup_tick (threads k t) \<le> ticks k + 1) (sleep_list k)).
            status (threads k t) = THREAD_BLOCKED \<and> status (threads k' t) = THREAD_READY) \<and>
         (\<forall>t. t \<in> set (takeWhile (\<lambda>t. wakeup_tick (threads k t) \<le> ticks k + 1) (sleep_list k)) \<or>
              threads k' t = threads k t)"
proof -
  from assms obtain k2 where tt: "thread_tick (k\<lparr>ticks := ticks k + 1\<rparr>) = Inr k2"
    and w: "timer_wake (sleep_list k2) k2 = Inr k'"
    by (auto simp: timer_interrupt_def Let_def bindE_Inr_iff split: if_splits)
  note e = thread_tick_effect[OF tt]
  have f: "threads k2 = threads k" "sleep_list k2 = sleep_list k" "ticks k2 = ticks k + 1"
    "thread_ticks k2 = thread_ticks k + 1"
    "yield_on_return k2 = (yield_on_return k \<or> TIME_SLICE \<le> thread_ticks k + 1)"
    using e by simp_all
  have tw: "thread_ticks k' = thread_ticks k2 \<and> yield_on_return k' = yield_on_return k2"
    if "timer_wake es k2' = Inr k'" "thread_ticks k2' = thread_ticks k2"
       "yield_on_return k2' = yield_on_return k2" for es k2'
    using that
  proof (induction es arbitrary: k2')
    case Nil
    then show ?case by simp
  next
    case (Cons t es)
    show ?case
    proof (cases "wakeup_tick (threads k2' t) \<le> ticks k2'")
      case False
      with Cons.prems show ?thesis by simp
    next
      case True
      with Cons.prems(1) obtain k3 where u: "thread_unblock t (k2'\<lparr>sleep_list := es\<rparr>) = Inr k3"
        and w3: "timer_wake es k3 = Inr k'"
        by (auto simp: bindE_Inr_iff)
      have "thread_ticks k3 = thread_ticks k2'" "yield_on_return k3 = yield_on_return k2'"
        using u by (auto simp: thread_unblock_def Let_def intr_disable_def intr_set_level_def
              split: if_splits)
      with Cons.IH[OF w3] Cons.prems(2,3) show ?thesis by simp
    qed
  qed
  from timer_wake_effect[OF w refl] tw[OF w refl refl] show ?thesis
    by (simp add: f)
qed

lemma replicate_numeral_Cons:
  "replicate (numeral n) x = x # replicate (pred_numeral n) x"
  by (simp add: numeral_eq_Suc)

lemma list_insert_ordered_tick:
  "list_insert_ordered (\<lambda>a b. key a < (key b :: int)) x xs =
     takeWhile (\<lambda>e. key e \<le> key x) xs @ x # dropWhile (\<lambda>e. key e \<le> key x) xs"
  by (induction xs) auto

lemma in_takeWhile_append:
  "\<forall>e \<in> set pre. P e \<Longrightarrow> P t \<Longrightarrow> t \<in> set (takeWhile P (pre @ t # post))"
  by (simp add: takeWhile_append2)

lemma distinct_takeWhile_not_dropWhile:
  assumes "distinct xs" "x \<in> set (takeWhile P xs)"
  shows "x \<notin> set (dropWhile P xs)"
proof -
  from assms(1) have "distinct (takeWhile P xs @ dropWhile P xs)" by simp
  with assms(2) show ?thesis by (simp only: distinct_append) blast
qed

lemma schedule_effect:
  assumes "schedule k = Inr k'"
  shows "\<exists>nx. fst (next_thread_to_run k) = Some nx \<and> running k' = nx \<and>
           threads k' = (threads k)(nx := (threads k nx)\<lparr>status := THREAD_RUNNING\<rparr>)"
  using assms
  by (auto simp: schedule_def next_thread_to_run_def Let_def upd_thread_def
           split: list.splits option.splits if_splits)

lemma thread_block_effect:
  assumes "thread_block k = Inr k'"
  shows "\<exists>nx. fst (next_thread_to_run k) = Some nx \<and> running k' = nx \<and>
           threads k' = (threads k)(running k := (threads k (running k))\<lparr>status := THREAD_BLOCKED\<rparr>,
                                    nx := ((threads k)(running k :=
                                             (threads k (running k))\<lparr>status := THREAD_BLOCKED\<rparr>)) nx
                                          \<lparr>status := THREAD_RUNNING\<rparr>)"
proof -
  let ?k1 = "upd_thread (running k) (\<lambda>t. t\<lparr>status := THREAD_BLOCKED\<rparr>) k"
  from assms have s: "schedule ?k1 = Inr k'"
    by (auto simp: thread_block_def bindE_Inr_iff thread_current_Inr split: if_splits)
  have "fst (next_thread_to_run ?k1) = fst (next_thread_to_run k)"
    by (simp add: next_thread_to_run_def split: list.splits)
  with schedule_effect[OF s] show ?thesis by simp
qed

lemma compare_sema_priority_raw_agrees:
  "compare_sema_priority k a b = Inr r \<Longrightarrow> compare_sema_priority_raw junk k a b = r"
  by (auto simp: compare_sema_priority_def compare_sema_priority_raw_def front_priority_def
      compare_ready_priority_def split: list.splits)






lemma donate_loop_conds [simp]: "conds (donate_priority_loop c hp d k) = conds k"
  by (subst donate_loop_only_threads) simp







section \<open>Claim C1: the donation walk of lock_acquire\<close>

text \<open>
  Claim C1.  The donation walk of \<^verbatim>\<open>lock_acquire\<close> starts at the lock's holder and
  follows \<^verbatim>\<open>waiting_lock\<close> edges.  For a chain of distinct holders \<open>h # hs\<close>, each
  blocked on a lock that the next one holds, the holder at index \<open>i < 8\<close> ends with
  the larger of its own priority and the acquiring thread's, and a holder at index 8
  or more keeps its priority.  So in a chain of 8 the tail (index 7) is reached, and
  in a chain of 9 the tail (index 8) is untouched while all earlier holders are raised.
\<close>

theorem lock_acquire_donation_walk:
  assumes "lock_acquire l k = Inr (taken, k')"
      and "holder (locks k l) = Some h"
      and "holder_chain k (h # hs)" and "distinct (h # hs)"
      and "running k \<notin> set (h # hs)" and "i < length (h # hs)"
  shows "priority (threads k' ((h # hs) ! i)) =
           (if i < MAX_DEPTH
            then max (priority (threads k ((h # hs) ! i))) (priority (threads k (running k)))
            else priority (threads k ((h # hs) ! i)))"
proof -
  from assms(1) obtain k1 k2 where d: "lock_acquire_donate l k = Inr k1"
    and s: "sema_down (LOCK_SEMA l) k1 = Inr (taken, k2)"
    and t: "if taken then lock_acquire_take l k2 = Inr k' else k' = k2"
    by (auto simp: lock_acquire_def bindE_Inr_iff split: if_splits)
  have "priority (threads k' x) = priority (threads k2 x)" for x
    using t by (auto split: if_splits dest: lock_acquire_take_priority)
  moreover have "priority (threads k2 x) = priority (threads k1 x)" for x
    using sema_down_thr_frame[OF s] by (rule thr_frame_priority)
  ultimately show ?thesis
    using lock_acquire_donate_chain[OF d assms(2-6)] by simp
qed

theorem lock_acquire_donation_walk_witness:
  "\<exists>k'. lock_acquire 0 chain_demo = Inr (False, k') \<and>
        holder_chain chain_demo [1, 2, 3, 4, 5, 6, 7, 8, 9] \<and>
        map (\<lambda>t. priority (threads chain_demo t)) [0, 1, 2, 3, 4, 5, 6, 7, 8, 9] =
          [50, 10, 10, 10, 10, 10, 10, 10, 10, 10] \<and>
        map (\<lambda>t. priority (threads k' t)) [1, 2, 3, 4, 5, 6, 7, 8, 9] =
          [50, 50, 50, 50, 50, 50, 50, 50, 10]"
proof -
  from chain_demo_runs obtain k' where r: "lock_acquire 0 chain_demo = Inr (False, k')" ..
  have h: "holder (locks chain_demo 0) = Some 1" by (simp add: chain_demo_def)
  have c: "holder_chain chain_demo (1 # [2, 3, 4, 5, 6, 7, 8, 9])" by (simp add: chain_demo_def)
  have d: "distinct (1 # [2, 3, 4, 5, 6, 7, 8, 9 :: nat])" by simp
  have n: "running chain_demo \<notin> set (1 # [2, 3, 4, 5, 6, 7, 8, 9])" by (simp add: chain_demo_def)
  note w = lock_acquire_donation_walk[OF r h c d n]
  have p: "priority (threads chain_demo t) = (if t = 0 then 50 else 10)" for t
    by (simp add: chain_demo_def)
  have p0: "running chain_demo = 0" by (simp add: chain_demo_def)
  have "priority (threads k' 1) = 50" using w[of 0] by (simp add: p p0)
  moreover have "priority (threads k' 2) = 50" using w[of 1] by (simp add: p p0)
  moreover have "priority (threads k' 3) = 50" using w[of 2] by (simp add: p p0)
  moreover have "priority (threads k' 4) = 50" using w[of 3] by (simp add: p p0)
  moreover have "priority (threads k' 5) = 50" using w[of 4] by (simp add: p p0)
  moreover have "priority (threads k' 6) = 50" using w[of 5] by (simp add: p p0)
  moreover have "priority (threads k' 7) = 50" using w[of 6] by (simp add: p p0)
  moreover have "priority (threads k' 8) = 50" using w[of 7] by (simp add: p p0)
  moreover have "priority (threads k' 9) = 10" using w[of 8] by (simp add: p p0)
  ultimately show ?thesis using r c by (auto simp: p)
qed

section \<open>Claim C2: sema_up from an interrupt handler\<close>

text \<open>
  Claim C2 (the code departs from it).  Called from the interrupt handler, \<^verbatim>\<open>sema_up\<close>
  unblocks thread 1, which outranks the running thread, and the preemption check calls
  \<^verbatim>\<open>thread_yield\<close>, whose assertion \<^verbatim>\<open>!intr_context ()\<close> fails: the kernel panics and
  no yield on return is requested.  Called by thread 0 itself, the same call switches
  to thread 1 and leaves the caller on the ready list.
\<close>

theorem sema_up_in_handler_panics:
  "sema_up (SEMA 0) (isr_demo True) = Inl ASSERT_not_intr_context \<and>
   (\<exists>k'. sema_up (SEMA 0) (isr_demo False) = Inr k' \<and> running k' = 1 \<and>
         status (threads k' 0) = THREAD_READY \<and> ready_list k' = [0] \<and>
         \<not> yield_on_return k')"
  by (simp add: isr_demo_def kernel_defs Let_def)

section \<open>Claim C3: the comparator of cond_wait\<close>

text \<open>
  Claim C3 (the code departs from it).  \<^verbatim>\<open>cond_wait\<close> inserts its slot before the
  thread is parked on the slot's semaphore, so the first comparison of the ordered
  insertion reads the front of the new slot's empty waiters list.
\<close>

theorem cond_wait_reads_empty_front:
  "waiters (sema_elems (sema_init (ELEM_SEMA 6) 0 cond_demo) 6) = [] \<and>
   compare_sema_priority (sema_init (ELEM_SEMA 6) 0 cond_demo) 6 5 = Inl READ_front_of_empty_list \<and>
   cond_wait 0 0 6 cond_demo = Inl READ_front_of_empty_list"
  by (simp add: cond_demo_def kernel_defs Let_def)

section \<open>Claim C4: who is woken by sema_up\<close>

text \<open>
  Claim C4, as amended.  On an up of a semaphore with waiters, the thread unblocked is
  the waiter \<open>t\<close> of highest priority that stands first in the waiters list: every
  waiter before it has a strictly lower priority, every waiter after it has at most
  its priority; the other waiters stay on the list.  Ordered insertion puts a thread
  behind the waiters whose priority is at least its own, so when the list is what
  ordered insertion of the threads \<open>ts\<close>, in this order, gives under the priorities at
  the up, the thread unblocked is the first of \<open>ts\<close> with the highest priority.
\<close>

theorem sema_up_wakes_first_highest:
  assumes "sema_up p k = Inr k'" and "waiters (get_sema k p) \<noteq> []"
  shows "(\<exists>pre t post. waiters (get_sema k p) = pre @ t # post \<and>
           (\<forall>x \<in> set pre. priority (threads k x) < priority (threads k t)) \<and>
           (\<forall>x \<in> set post. priority (threads k x) \<le> priority (threads k t)) \<and>
           status (threads k t) = THREAD_BLOCKED \<and>
           status (threads k' t) \<noteq> THREAD_BLOCKED \<and>
           waiters (get_sema k' p) = list_sort (compare_ready_priority k) (pre @ post)) \<and>
         (\<forall>ts. waiters (get_sema k p) = list_sort_onto (compare_ready_priority k) [] ts \<longrightarrow>
           (\<exists>pre t post. ts = pre @ t # post \<and>
             (\<forall>x \<in> set pre. priority (threads k x) < priority (threads k t)) \<and>
             (\<forall>x \<in> set post. priority (threads k x) \<le> priority (threads k t)) \<and>
             status (threads k t) = THREAD_BLOCKED \<and>
             status (threads k' t) \<noteq> THREAD_BLOCKED))"
proof (intro conjI allI impI)
  let ?key = "\<lambda>x. priority (threads k x)"
  let ?lt = "compare_ready_priority k"
  note e = sema_up_effect[OF assms]
  from first_highest_exists[OF assms(2), of ?key]
  obtain pre t post where d: "waiters (get_sema k p) = pre @ t # post"
    and lo: "\<forall>x \<in> set pre. ?key x < ?key t" and hi: "\<forall>x \<in> set post. ?key x \<le> ?key t"
    by blast
  have s: "list_sort ?lt (waiters (get_sema k p)) = t # list_sort ?lt (pre @ post)"
    unfolding d compare_ready_priority_key using lo hi by (rule list_sort_first_highest)
  from e(1) s have "status (threads k t) = THREAD_BLOCKED" by simp
  moreover from e(2) s have "status (threads k' t) \<noteq> THREAD_BLOCKED"
    by (simp add: not_blocked_def)
  moreover from e(3) s
  have "waiters (get_sema k' p) = list_sort ?lt (pre @ post)" by simp
  ultimately show "\<exists>pre t post. waiters (get_sema k p) = pre @ t # post \<and>
           (\<forall>x \<in> set pre. ?key x < ?key t) \<and> (\<forall>x \<in> set post. ?key x \<le> ?key t) \<and>
           status (threads k t) = THREAD_BLOCKED \<and> status (threads k' t) \<noteq> THREAD_BLOCKED \<and>
           waiters (get_sema k' p) = list_sort ?lt (pre @ post)"
    using d lo hi by blast
next
  fix ts
  let ?key = "\<lambda>x. priority (threads k x)"
  let ?lt = "compare_ready_priority k"
  note e = sema_up_effect[OF assms]
  assume ws: "waiters (get_sema k p) = list_sort_onto ?lt [] ts"
  with assms(2) have "ts \<noteq> []" by auto
  from first_highest_exists[OF this, of ?key]
  obtain pre t post where d: "ts = pre @ t # post"
    and lo: "\<forall>x \<in> set pre. ?key x < ?key t" and hi: "\<forall>x \<in> set post. ?key x \<le> ?key t"
    by blast
  have w: "waiters (get_sema k p) = t # list_sort ?lt (pre @ post)"
    unfolding ws d list_sort_def[symmetric] compare_ready_priority_key
    using lo hi by (rule list_sort_first_highest)
  have "list_sort ?lt ([] @ t # list_sort ?lt (pre @ post)) =
        t # list_sort ?lt ([] @ list_sort ?lt (pre @ post))"
    unfolding compare_ready_priority_key
    using lo hi by (intro list_sort_first_highest) auto
  with w have s: "hd (list_sort ?lt (waiters (get_sema k p))) = t" by simp
  from e(1) s have "status (threads k t) = THREAD_BLOCKED" by simp
  moreover from e(2) s have "status (threads k' t) \<noteq> THREAD_BLOCKED"
    by (simp add: not_blocked_def)
  ultimately show "\<exists>pre t post. ts = pre @ t # post \<and>
             (\<forall>x \<in> set pre. ?key x < ?key t) \<and> (\<forall>x \<in> set post. ?key x \<le> ?key t) \<and>
             status (threads k t) = THREAD_BLOCKED \<and> status (threads k' t) \<noteq> THREAD_BLOCKED"
    using d lo hi by blast
qed

theorem sema_up_wakes_first_highest_witness:
  "\<exists>k'. sema_up (SEMA 0) fifo_demo = Inr k' \<and>
        waiters (get_sema fifo_demo (SEMA 0)) = [1, 2] \<and>
        priority (threads fifo_demo 1) = 40 \<and> priority (threads fifo_demo 2) = 40 \<and>
        status (threads fifo_demo 1) = THREAD_BLOCKED \<and>
        status (threads k' 1) \<noteq> THREAD_BLOCKED \<and>
        waiters (get_sema k' (SEMA 0)) = [2]"
proof -
  have "\<exists>k'. sema_up (SEMA 0) fifo_demo = Inr k'"
    by (simp add: fifo_demo_def kernel_defs Let_def)
  then obtain k' where r: "sema_up (SEMA 0) fifo_demo = Inr k'" ..
  have ws: "waiters (get_sema fifo_demo (SEMA 0)) = [1, 2]"
    by (simp add: fifo_demo_def get_sema_def)
  have pr: "priority (threads fifo_demo x) = (if x = 0 then 50 else 40)" for x
    by (simp add: fifo_demo_def)
  from sema_up_wakes_first_highest[OF r] ws
  obtain pre t post where d: "[1, 2] = pre @ t # post"
    and lo: "\<forall>x \<in> set pre. priority (threads fifo_demo x) < priority (threads fifo_demo t)"
    and st: "status (threads fifo_demo t) = THREAD_BLOCKED"
            "status (threads k' t) \<noteq> THREAD_BLOCKED"
    and rest: "waiters (get_sema k' (SEMA 0)) =
               list_sort (compare_ready_priority fifo_demo) (pre @ post)"
    by auto
  have "pre = []"
  proof (cases pre)
    case Nil
    then show ?thesis .
  next
    case (Cons a as)
    with d have "a = 1" "t \<noteq> 0" by (auto simp: Cons_eq_append_conv)
    with lo Cons show ?thesis by (simp add: pr)
  qed
  with d have "t = 1" "post = [2]" by simp_all
  with st rest \<open>pre = []\<close> r ws show ?thesis
    by (simp add: pr list_sort_def)
qed

text \<open>
  Claim C4 as stated fails.  In the trace below thread 1 is parked on semaphore 0
  first, thread 2 second (ahead of thread 1, its priority being higher then); the
  donation of thread 3 raises thread 1 to the priority of thread 2; the up then wakes
  thread 2 and leaves thread 1, the first inserted of the two, blocked.
\<close>

theorem sema_up_fifo_counterexample:
  "bindE (do_calls (take 5 donate_sema_trace) gate_demo)
     (\<lambda>k. Inr (running k, waiters (semas k 0))) = Inr (0, [1]) \<and>
   bindE (do_calls (take 9 donate_sema_trace) gate_demo)
     (\<lambda>k. Inr (running k, waiters (semas k 0))) = Inr (0, [2, 1]) \<and>
   bindE (do_calls donate_sema_trace gate_demo)
     (\<lambda>k. Inr (running k, waiters (semas k 0), priority (threads k 1), priority (threads k 2)))
     = Inr (0, [2, 1], 34, 34) \<and>
   bindE (do_calls (donate_sema_trace @ [SEMA_UP (SEMA 0)]) gate_demo)
     (\<lambda>k. Inr (running k, waiters (semas k 0), status (threads k 1), status (threads k 2)))
     = Inr (2, [1], THREAD_BLOCKED, THREAD_RUNNING)"
  by (simp add: donate_sema_trace_def gate_demo_def kernel_defs Let_def
      donate_priority_loop.simps)

section \<open>Claim C5: lock_release removes the released lock's donors only\<close>



section \<open>Claim C6: thread_set_priority and the effective priority\<close>



section \<open>Claim C7: the semaphore invariant\<close>

text \<open>
  Claim C7, as amended.  In every state that a semaphore reaches from its
  initialisation by down, try_down and up on it, with any other code running in
  between that leaves its value and its waiters list alone: the waiters list is sorted
  by priority, highest first, as long as no thread on it has had its priority changed
  since the last up; an up leaves the list sorted whatever it found; and when the list
  is not empty, the value is at most the number of waiters that an up has unblocked
  and that have not yet gone round the loop of \<^verbatim>\<open>sema_down\<close> again.  So a positive value
  implies an empty list whenever no unblocked waiter is still due.
\<close>

theorem sema_reachable_invariant:
  assumes "sema_reachable p n c k"
  shows "(c \<longrightarrow> waiters_sorted k p) \<and>
         (\<forall>k'. sema_up p k = Inr k' \<longrightarrow> waiters_sorted k' p) \<and>
         (waiters (get_sema k p) \<noteq> [] \<longrightarrow> unat (sem_value (get_sema k p)) \<le> n) \<and>
         (n = 0 \<and> 0 < sem_value (get_sema k p) \<longrightarrow> waiters (get_sema k p) = [])"
proof -
  have "(c \<longrightarrow> waiters_sorted k p) \<and>
        (waiters (get_sema k p) \<noteq> [] \<longrightarrow> unat (sem_value (get_sema k p)) \<le> n)"
    using assms
  proof (induction rule: sema_reachable.induct)
    case (reach_init v k)
    show ?case by (simp add: waiters_sorted_def sema_init_def)
  next
    case (reach_down n c k taken k')
    note e = sema_down_effect[OF reach_down.hyps(2)]
    show ?case
    proof (cases "sem_value (get_sema k p) = 0")
      case True
      with e(2) reach_down.IH show ?thesis
        unfolding waiters_sorted_frame[OF e(1)]
        by (simp add: waiters_sorted_def compare_ready_priority_key sorted_list_insert_ordered)
    next
      case False
      with e(2) reach_down.IH show ?thesis
        unfolding waiters_sorted_frame[OF e(1)]
        by (auto simp: waiters_sorted_def unat_minus_one_word)
    qed
  next
    case (reach_resume n c k old_level taken k')
    note e = sema_down_loop_effect[OF reach_resume.hyps(2)]
    show ?case
    proof (cases "sem_value (get_sema k p) = 0")
      case True
      with e(2) reach_resume.IH show ?thesis
        unfolding waiters_sorted_frame[OF e(1)]
        by (simp add: waiters_sorted_def compare_ready_priority_key sorted_list_insert_ordered)
    next
      case False
      then have "unat (sem_value (get_sema k p)) \<noteq> 0" by (simp add: unat_eq_0)
      with False e(2) reach_resume.IH show ?thesis
        unfolding waiters_sorted_frame[OF e(1)]
        by (auto simp: waiters_sorted_def unat_minus_one_word)
    qed
  next
    case (reach_try_down n c k taken k')
    note e = sema_try_down_effect[OF reach_try_down.hyps(2)]
    show ?case
    proof (cases "sem_value (get_sema k p) > 0")
      case True
      then have "sem_value (get_sema k p) \<noteq> 0" by auto
      with True e(2) reach_try_down.IH show ?thesis
        unfolding waiters_sorted_frame[OF e(1)]
        by (auto simp: waiters_sorted_def unat_minus_one_word)
    next
      case False
      with e(2) reach_try_down.IH show ?thesis
        unfolding waiters_sorted_frame[OF e(1)] by (simp add: waiters_sorted_def)
    qed
  next
    case (reach_up n c k k')
    note s = sema_up_sorts[OF reach_up.hyps(2)]
    show ?case
    proof (cases "waiters (get_sema k p) = []")
      case True
      from sema_up_effect_empty[OF reach_up.hyps(2) True] True s show ?thesis by simp
    next
      case False
      note e = sema_up_effect[OF reach_up.hyps(2) False]
      have "unat (sem_value (get_sema k p) + 1) \<le> n + 1"
        using reach_up.IH False unat_plus_one_le[of "sem_value (get_sema k p)"] by simp
      with False e(3) s show ?thesis by simp
    qed
  next
    case (reach_other n c k k')
    have "waiters_sorted k' p"
      if "waiters_sorted k p"
        and "\<forall>t \<in> set (waiters (get_sema k p)). priority (threads k' t) = priority (threads k t)"
    proof -
      have "sorted_wrt (\<lambda>a b. priority (threads k' a) \<ge> priority (threads k' b)) ws"
        if "sorted_wrt (\<lambda>a b. priority (threads k a) \<ge> priority (threads k b)) ws"
          and "\<forall>t \<in> set ws. priority (threads k' t) = priority (threads k t)" for ws
        using that by (induction ws) auto
      with that reach_other.hyps(2) show ?thesis by (simp add: waiters_sorted_def)
    qed
    with reach_other.IH reach_other.hyps(2) show ?case by simp
  qed
  moreover have "0 < v \<Longrightarrow> unat v \<noteq> 0" for v :: "32 word"
    by (simp add: unat_eq_0)
  moreover have "\<forall>k'. sema_up p k = Inr k' \<longrightarrow> waiters_sorted k' p"
    by (auto dest: sema_up_sorts)
  ultimately show ?thesis by fastforce
qed

theorem sema_reachable_invariant_witness:
  "\<exists>k4 k5 k6.
     sema_reachable (SEMA 0) 0 True k4 \<and> get_sema k4 (SEMA 0) = \<lparr>sem_value = 0, waiters = [2, 1]\<rparr> \<and>
     map (\<lambda>t. priority (threads k4 t)) [2, 1] = [34, 32] \<and> waiters_sorted k4 (SEMA 0) \<and>
     sema_reachable (SEMA 0) 0 False k5 \<and> get_sema k5 (SEMA 0) = \<lparr>sem_value = 0, waiters = [2, 1]\<rparr> \<and>
     map (\<lambda>t. priority (threads k5 t)) [2, 1] = [34, 36] \<and> \<not> waiters_sorted k5 (SEMA 0) \<and>
     sema_up (SEMA 0) k5 = Inr k6 \<and>
     sema_reachable (SEMA 0) 1 True k6 \<and> get_sema k6 (SEMA 0) = \<lparr>sem_value = 1, waiters = [2]\<rparr> \<and>
     waiters_sorted k6 (SEMA 0)"
proof -
  let ?p = "SEMA 0"
  let ?k0 = "sema_init ?p 0 donor_demo"
  from donor_demo_eval obtain k1 b2 k2 k3 b4 k4 k5 k6 where
    c1: "do_calls (take 3 donate_sema_trace) ?k0 = Inr k1"
    and c2: "sema_down ?p k1 = Inr (b2, k2)"
    and c3: "do_calls (take 3 (drop 4 donate_sema_trace)) k2 = Inr k3"
    and c4: "sema_down ?p k3 = Inr (b4, k4)"
    and c5: "do_calls (drop 8 donate_sema_trace) k4 = Inr k5"
    and c6: "sema_up ?p k5 = Inr k6"
    and o1: "semas k1 0 = \<lparr>sem_value = 0, waiters = []\<rparr>"
    and o2: "semas k2 0 = \<lparr>sem_value = 0, waiters = [1]\<rparr>" "priority (threads k2 1) = 32"
    and o3: "semas k3 0 = \<lparr>sem_value = 0, waiters = [1]\<rparr>" "priority (threads k3 1) = 32"
    and o4: "semas k4 0 = \<lparr>sem_value = 0, waiters = [2, 1]\<rparr>"
      "priority (threads k4 2) = 34" "priority (threads k4 1) = 32"
    and o5: "semas k5 0 = \<lparr>sem_value = 0, waiters = [2, 1]\<rparr>"
      "priority (threads k5 2) = 34" "priority (threads k5 1) = 36"
    and o6: "semas k6 0 = \<lparr>sem_value = 1, waiters = [2]\<rparr>"
    by (auto simp: bindE_Inr_iff)
  have g: "get_sema k (SEMA 0) = semas k 0" for k by (simp add: get_sema_def)
  have g0: "semas ?k0 0 = \<lparr>sem_value = 0, waiters = []\<rparr>"
    by (simp add: sema_init_def put_sema_def)
  have r0: "sema_reachable ?p 0 True ?k0" by (rule reach_init)
  from reach_other[OF r0, of k1] g0 o1 have r1: "sema_reachable ?p 0 True k1"
    by (simp add: g)
  from reach_down[OF r1 c2] have r2: "sema_reachable ?p 0 True k2" .
  from reach_other[OF r2, of k3] o2 o3 have r3: "sema_reachable ?p 0 True k3"
    by (simp add: g)
  from reach_down[OF r3 c4] have r4: "sema_reachable ?p 0 True k4" .
  from reach_other[OF r4, of k5] o4 o5 have r5: "sema_reachable ?p 0 False k5"
    by (simp add: g)
  from reach_up[OF r5 c6] o5 have r6: "sema_reachable ?p 1 True k6"
    by (simp add: g)
  from sema_reachable_invariant[OF r4] have s4: "waiters_sorted k4 ?p" by simp
  from sema_reachable_invariant[OF r6] have s6: "waiters_sorted k6 ?p" by simp
  have s5: "\<not> waiters_sorted k5 ?p" using o5 by (simp add: waiters_sorted_def g)
  from r4 r5 r6 s4 s5 s6 c6 o4 o5 o6 show ?thesis
    by (intro exI[of _ k4, OF exI[of _ k5, OF exI[of _ k6]]]) (simp add: g)
qed

text \<open>
  Claim C7 as stated fails.  After init with value 0, the main thread and thread 1 go
  down and are parked; thread 2 then calls up, which unblocks the main thread and
  raises the value to 1 while thread 1 is still on the waiters list.  And in the
  scenario of the donor, semaphore 0 has seen its initialisation and two downs when the
  donation of thread 3 through lock 0 raises thread 1, the second on the waiters list,
  above thread 2, the first.
\<close>

theorem sema_positive_value_counterexample:
  "bindE (do_calls [SEMA_DOWN (SEMA 0), SEMA_DOWN (SEMA 0), SEMA_UP (SEMA 0)]
            (sema_init (SEMA 0) 0 up_demo))
     (\<lambda>k. Inr (running k, sem_value (semas k 0), waiters (semas k 0))) = Inr (0, 1, [1]) \<and>
   bindE (do_calls donate_sema_trace (sema_init (SEMA 0) 0 donor_demo))
     (\<lambda>k. Inr (sem_value (semas k 0), waiters (semas k 0),
               map (\<lambda>t. priority (threads k t)) (waiters (semas k 0)),
               waiters_sorted k (SEMA 0))) = Inr (0, [2, 1], [34, 36], False)"
  by (simp add: up_demo_def donate_sema_trace_def donor_demo_def waiters_sorted_def
      kernel_defs Let_def donate_priority_loop.simps)

section \<open>Claim C8: the timer interrupt and the sleep list\<close>

text \<open>
  Claim C8.  A timer interrupt increments the tick counter, lets \<^verbatim>\<open>thread_tick\<close> do
  the time-slice accounting (the slice counter goes up by one and a yield on return
  is requested once it reaches \<^verbatim>\<open>TIME_SLICE\<close>), and then pops and unblocks the longest
  front part of the sleep list whose wakeup ticks are at most the new tick count,
  leaving every other thread as it was.  In the scenario of the claim, whatever the
  priorities are, B is still blocked after 9 interrupts and ready after 10, C is
  still blocked after 19 and ready after 20, A is still blocked after 29 and ready
  after 30.
\<close>

theorem timer_interrupt_wakes_expired_front:
  assumes "timer_interrupt k = Inr k'"
  shows "ticks k' = ticks k + 1 \<and> thread_ticks k' = thread_ticks k + 1 \<and>
         yield_on_return k' = (yield_on_return k \<or> TIME_SLICE \<le> thread_ticks k + 1) \<and>
         sleep_list k' = dropWhile (\<lambda>t. wakeup_tick (threads k t) \<le> ticks k + 1) (sleep_list k) \<and>
         (\<forall>t \<in> set (takeWhile (\<lambda>t. wakeup_tick (threads k t) \<le> ticks k + 1) (sleep_list k)).
            status (threads k t) = THREAD_BLOCKED \<and> status (threads k' t) = THREAD_READY) \<and>
         (\<forall>t. t \<in> set (takeWhile (\<lambda>t. wakeup_tick (threads k t) \<le> ticks k + 1) (sleep_list k)) \<or>
              threads k' t = threads k t) \<and>
         map (\<lambda>n. bindE (do_calls (sleep_trace n) (sleep_demo T0 pa pb pc)) (\<lambda>k. Inr (sleepers k)))
             [0, 9, 10, 19, 20, 29, 30] =
           [Inr (T0, [2, 3, 1], THREAD_BLOCKED, THREAD_BLOCKED, THREAD_BLOCKED),
            Inr (T0 + 9, [2, 3, 1], THREAD_BLOCKED, THREAD_BLOCKED, THREAD_BLOCKED),
            Inr (T0 + 10, [3, 1], THREAD_BLOCKED, THREAD_READY, THREAD_BLOCKED),
            Inr (T0 + 19, [3, 1], THREAD_BLOCKED, THREAD_READY, THREAD_BLOCKED),
            Inr (T0 + 20, [1], THREAD_BLOCKED, THREAD_READY, THREAD_READY),
            Inr (T0 + 29, [1], THREAD_BLOCKED, THREAD_READY, THREAD_READY),
            Inr (T0 + 30, [], THREAD_READY, THREAD_READY, THREAD_READY)]"
proof -
  have "map (\<lambda>n. bindE (do_calls (sleep_trace n) (sleep_demo T0 pa pb pc)) (\<lambda>k. Inr (sleepers k)))
             [0, 9, 10, 19, 20, 29, 30] =
           [Inr (T0, [2, 3, 1], THREAD_BLOCKED, THREAD_BLOCKED, THREAD_BLOCKED),
            Inr (T0 + 9, [2, 3, 1], THREAD_BLOCKED, THREAD_BLOCKED, THREAD_BLOCKED),
            Inr (T0 + 10, [3, 1], THREAD_BLOCKED, THREAD_READY, THREAD_BLOCKED),
            Inr (T0 + 19, [3, 1], THREAD_BLOCKED, THREAD_READY, THREAD_BLOCKED),
            Inr (T0 + 20, [1], THREAD_BLOCKED, THREAD_READY, THREAD_READY),
            Inr (T0 + 29, [1], THREAD_BLOCKED, THREAD_READY, THREAD_READY),
            Inr (T0 + 30, [], THREAD_READY, THREAD_READY, THREAD_READY)]"
    by (simp add: sleep_trace_def sleep_demo_def sleepers_def kernel_defs Let_def
        replicate_numeral_Cons)
  note sc = this
  note e = timer_interrupt_effect[OF assms]
  show ?thesis
    apply (insert e sc)
    apply (elim conjE)
    apply (intro conjI)
          apply assumption+
    done
qed

theorem timer_interrupt_wakes_expired_front_witness:
  "\<exists>k k'. do_calls (sleep_trace 9) (sleep_demo 100 31 20 40) = Inr k \<and>
     timer_interrupt k = Inr k' \<and> ticks k = 109 \<and> sleep_list k = [2, 3, 1] \<and>
     map (\<lambda>t. wakeup_tick (threads k t)) [2, 3, 1] = [110, 120, 130] \<and>
     ticks k' = 110 \<and> sleep_list k' = [3, 1] \<and> status (threads k' 2) = THREAD_READY \<and>
     threads k' 3 = threads k 3"
proof -
  have "\<exists>k k'. bindE (do_calls (sleep_trace 9) (sleep_demo 100 31 20 40))
           (\<lambda>k. bindE (timer_interrupt k) (\<lambda>k'. Inr (ticks k, sleep_list k,
              map (\<lambda>t. wakeup_tick (threads k t)) [2, 3, 1], k, k')))
         = Inr (109, [2, 3, 1], [110, 120, 130], k, k')"
    by (simp add: sleep_trace_def sleep_demo_def kernel_defs Let_def replicate_numeral_Cons)
  then obtain k k' where r: "do_calls (sleep_trace 9) (sleep_demo 100 31 20 40) = Inr k"
    and i: "timer_interrupt k = Inr k'"
    and o: "ticks k = 109" "sleep_list k = [2, 3, 1]"
           "map (\<lambda>t. wakeup_tick (threads k t)) [2, 3, 1] = [110, 120, 130]"
    by (auto simp: bindE_Inr_iff)
  note t = timer_interrupt_wakes_expired_front[OF i, of 0 0 0 0]
  have w: "wakeup_tick (threads k 2) = 110" "wakeup_tick (threads k 3) = 120"
    using o(3) by simp_all
  have "ticks k' = 110" using t[THEN conjunct1] o(1) by simp
  moreover have "sleep_list k' = [3, 1]"
    using t[THEN conjunct2, THEN conjunct2, THEN conjunct2, THEN conjunct1] o(1,2) w by simp
  moreover have "status (threads k' 2) = THREAD_READY"
    using t[THEN conjunct2, THEN conjunct2, THEN conjunct2, THEN conjunct2, THEN conjunct1]
      o(1,2) w by simp
  moreover have "threads k' 3 = threads k 3"
    using t[THEN conjunct2, THEN conjunct2, THEN conjunct2, THEN conjunct2, THEN conjunct2,
            THEN conjunct1, THEN spec, of 3] o(1,2) w by simp
  ultimately have "ticks k' = 110 \<and> sleep_list k' = [3, 1] \<and>
        status (threads k' 2) = THREAD_READY \<and> threads k' 3 = threads k 3"
    by simp
  with r i o show ?thesis by (intro exI[of _ k] exI[of _ k']) simp
qed

section \<open>Claim C9: timer_sleep with a non-positive argument\<close>

text \<open>
  Claim C9.  \<^verbatim>\<open>timer_sleep\<close> has no early return for \<open>n \<le> 0\<close>: called by a running
  thread other than the idle thread, with interrupts on, it puts the caller on the
  sleep list with the wakeup tick \<open>now + n\<close>, which is at most the current tick, blocks
  it and switches to another thread; the timer interrupt that follows pops it from
  the sleep list and unblocks it.  (The tick count and \<open>n\<close> are such that the sum does
  not overflow.)
\<close>

theorem timer_sleep_nonpositive_still_blocks:
  assumes "n \<le> 0"
      and "intr_lvl k = INTR_ON" and "\<not> in_external_intr k"
      and "status (threads k (running k)) = THREAD_RUNNING"
      and "idle_thread k = Some i" and "i \<noteq> running k" and "i \<notin> set (sleep_list k)"
      and "\<forall>t \<in> set (ready_list k). status (threads k t) = THREAD_READY"
      and "distinct (sleep_list k)"
      and "\<forall>t \<in> set (sleep_list k). status (threads k t) = THREAD_BLOCKED"
  shows "\<exists>k1 k2. timer_sleep n k = Inr k1 \<and> running k1 \<noteq> running k \<and>
           status (threads k1 (running k)) = THREAD_BLOCKED \<and>
           running k \<in> set (sleep_list k1) \<and>
           wakeup_tick (threads k1 (running k)) = ticks k + n \<and>
           wakeup_tick (threads k1 (running k)) \<le> ticks k1 \<and>
           timer_interrupt k1 = Inr k2 \<and>
           status (threads k2 (running k)) = THREAD_READY \<and>
           running k \<notin> set (sleep_list k2)"
proof -
  let ?t = "running k"
  let ?ka = "upd_thread ?t (\<lambda>th. th\<lparr>wakeup_tick := ticks k + n\<rparr>) k"
  let ?kb = "intr_disable ?ka"
  let ?sl = "list_insert_ordered (compare_tick ?kb) ?t (sleep_list ?kb)"
  let ?kc = "?kb\<lparr>sleep_list := ?sl\<rparr>"
  have ne: "next_thread_exists ?kc"
    using assms(5) by (simp add: next_thread_exists_def next_thread_to_run_def split: list.splits)
  have "\<exists>k1. thread_block ?kc = Inr k1"
    using assms(3,4) ne by (intro thread_block_returns) (simp_all add: intr_disable_def)
  then obtain k1 where tb: "thread_block ?kc = Inr k1" ..
  from thread_block_effect[OF tb] obtain nx where
    nx: "fst (next_thread_to_run ?kc) = Some nx" and r1: "running k1 = nx"
    and th1: "threads k1 = (threads ?kc)(?t := (threads ?kc ?t)\<lparr>status := THREAD_BLOCKED\<rparr>,
                                nx := ((threads ?kc)(?t := (threads ?kc ?t)\<lparr>status := THREAD_BLOCKED\<rparr>)) nx
                                      \<lparr>status := THREAD_RUNNING\<rparr>)"
    by auto
  have tnr: "?t \<notin> set (ready_list k)" using assms(4,8) by auto
  have tns: "?t \<notin> set (sleep_list k)" using assms(4,10) by auto
  have nx_cases: "nx = i \<and> ready_list k = [] \<or> nx \<in> set (ready_list k)"
    using nx assms(5) by (auto simp: next_thread_to_run_def intr_disable_def split: list.splits)
  have nxt: "nx \<noteq> ?t" using nx_cases assms(6) tnr by auto
  have nxs: "nx \<notin> set (sleep_list k)" using nx_cases assms(7,8,10) by auto
  have k0: "intr_set_level INTR_ON (intr_disable k) = k"
    using assms(2) by (simp add: intr_set_level_def intr_disable_def)
  have ts: "timer_sleep n k = Inr k1"
    using tb nxt r1 assms(2,4)
    by (simp add: timer_sleep_def timer_ticks_def Let_def k0 thread_current_def)
  have so: "sched_only ?kc k1" by (rule thread_block_sched_only[OF tb])
  have sl1: "sleep_list k1 = ?sl" and tk1: "ticks k1 = ticks k"
    using so by (simp_all add: sched_only_def intr_disable_def)
  have wk1: "wakeup_tick (threads k1 x) = (if x = ?t then ticks k + n else wakeup_tick (threads k x))"
    for x
    using sched_only_fields(5)[OF so, of x] by (simp add: intr_disable_def)
  have st1: "status (threads k1 x) =
      (if x = nx then THREAD_RUNNING else if x = ?t then THREAD_BLOCKED else status (threads k x))"
    for x
    by (simp add: th1 intr_disable_def)
  let ?key = "\<lambda>x. wakeup_tick (threads k1 x)"
  have ct: "compare_tick ?kb = (\<lambda>a b. ?key a < ?key b)"
    by (intro ext) (simp add: compare_tick_def wk1 intr_disable_def)
  have sl1': "sleep_list k1 = takeWhile (\<lambda>e. ?key e \<le> ?key ?t) (sleep_list k) @
                ?t # dropWhile (\<lambda>e. ?key e \<le> ?key ?t) (sleep_list k)"
    unfolding sl1 ct by (simp add: list_insert_ordered_tick intr_disable_def)
  have mem: "?t \<in> set (sleep_list k1)" by (simp add: sl1)
  have d1: "distinct (sleep_list k1)"
  proof -
    let ?Q = "\<lambda>e. ?key e \<le> ?key ?t"
    have "distinct (takeWhile ?Q (sleep_list k))" "distinct (dropWhile ?Q (sleep_list k))"
      using assms(9) by (simp_all add: distinct_takeWhile distinct_dropWhile)
    moreover have "set (takeWhile ?Q (sleep_list k)) \<inter> set (dropWhile ?Q (sleep_list k)) = {}"
      using distinct_takeWhile_not_dropWhile[OF assms(9), of _ ?Q] by blast
    moreover have "?t \<notin> set (takeWhile ?Q (sleep_list k))"
      "?t \<notin> set (dropWhile ?Q (sleep_list k))"
      using tns by (auto dest: set_takeWhileD set_dropWhileD)
    ultimately show ?thesis unfolding sl1' by (simp only: distinct_append distinct.simps) auto
  qed
  have b1: "\<forall>x \<in> set (sleep_list k1). status (threads k1 x) = THREAD_BLOCKED"
    using assms(10) nxs nxt by (auto simp: sl1 st1 intr_disable_def)
  have run1: "status (threads k1 (running k1)) = THREAD_RUNNING"
    by (simp add: r1 st1)
  let ?kt = "k1\<lparr>ticks := ticks k1 + 1\<rparr>"
  from thread_tick_returns[of ?kt] run1
  obtain k1' where tt: "thread_tick ?kt = Inr k1'" by auto
  note te = thread_tick_effect[OF tt]
  have "\<exists>k2. timer_wake (sleep_list k1') k1' = Inr k2"
    using d1 b1 te(1,2) by (intro timer_wake_returns) simp_all
  then obtain k2 where tw: "timer_wake (sleep_list k1') k1' = Inr k2" ..
  have ti: "timer_interrupt k1 = Inr k2"
    using tt tw mem te(2) by (auto simp: timer_interrupt_def Let_def)
  note ie = timer_interrupt_effect[OF ti]
  let ?P = "\<lambda>x. ?key x \<le> ticks k1 + 1"
  have pt: "?P ?t" using assms(1) by (simp add: wk1 tk1)
  have "\<forall>e \<in> set (takeWhile (\<lambda>e. ?key e \<le> ?key ?t) (sleep_list k)). ?P e"
    using pt by (auto dest!: set_takeWhileD)
  from in_takeWhile_append[of _ ?P, OF this pt]
  have tin: "?t \<in> set (takeWhile ?P (sleep_list k1))" unfolding sl1' .
  have "status (threads k2 ?t) = THREAD_READY"
    using ie tin by blast
  moreover have "?t \<notin> set (sleep_list k2)"
    using ie distinct_takeWhile_not_dropWhile[OF d1 tin] by simp
  moreover have "wakeup_tick (threads k1 ?t) \<le> ticks k1"
    using assms(1) by (simp add: wk1 tk1)
  ultimately show ?thesis
    using ts nxt r1 mem ti by (intro exI[of _ k1] exI[of _ k2]) (simp add: st1 wk1)
qed

theorem timer_sleep_nonpositive_still_blocks_witness:
  "\<exists>k1 k2. timer_sleep (- 5) (sleep_demo 100 31 20 40) = Inr k1 \<and> running k1 = 2 \<and>
     status (threads k1 1) = THREAD_BLOCKED \<and> sleep_list k1 = [1] \<and>
     wakeup_tick (threads k1 1) = 95 \<and> ticks k1 = 100 \<and>
     timer_interrupt k1 = Inr k2 \<and> status (threads k2 1) = THREAD_READY \<and> sleep_list k2 = []"
proof -
  let ?k = "sleep_demo 100 31 20 40"
  have h: "intr_lvl ?k = INTR_ON" "\<not> in_external_intr ?k"
    "status (threads ?k (running ?k)) = THREAD_RUNNING"
    "idle_thread ?k = Some 9" "9 \<noteq> running ?k" "9 \<notin> set (sleep_list ?k)"
    "\<forall>t \<in> set (ready_list ?k). status (threads ?k t) = THREAD_READY"
    "distinct (sleep_list ?k)"
    "\<forall>t \<in> set (sleep_list ?k). status (threads ?k t) = THREAD_BLOCKED"
    by (simp_all add: sleep_demo_def)
  have n: "(- 5 :: int) \<le> 0" by simp
  from timer_sleep_nonpositive_still_blocks[OF n h]
  obtain k1 k2 where r: "timer_sleep (- 5) ?k = Inr k1"
    "status (threads k1 (running ?k)) = THREAD_BLOCKED"
    "wakeup_tick (threads k1 (running ?k)) = ticks ?k + (- 5)"
    "timer_interrupt k1 = Inr k2" "status (threads k2 (running ?k)) = THREAD_READY"
    by blast
  have c: "running ?k = 1" "ticks ?k = 100" by (simp_all add: sleep_demo_def)
  have "bindE (timer_sleep (- 5) ?k) (\<lambda>k1. bindE (timer_interrupt k1) (\<lambda>k2.
          Inr (running k1, sleep_list k1, ticks k1, sleep_list k2))) = Inr (2, [1], 100, [])"
    by (simp add: sleep_demo_def kernel_defs Let_def)
  with r(1,4) have "running k1 = 2" "sleep_list k1 = [1]" "ticks k1 = 100" "sleep_list k2 = []"
    by simp_all
  with r c show ?thesis by (intro exI[of _ k1] exI[of _ k2]) simp
qed

section \<open>Claim C10: cond_broadcast\<close>



end
